theory Spec2Isabelle
  imports Main
begin

section \<open>The page pool of package page_pool\<close>

text \<open>
  The pool caches browser pages. Its bookkeeping (the counter \<open>active\<close>, the intrusive
  doubly-linked idle list, the admission channel) is embedded here as functions on an
  explicit state. One goroutine is followed at a time: what other goroutines, the
  browser, the clock and the Go runtime decide is an input (the record \<open>env\<close>).

  Go's \<open>int\<close>, \<open>int64\<close> and \<open>time.Duration\<close> are unbounded integers here: the counters
  count live pages and stay far from the machine bounds. A \<open>time.Time\<close> is an integer
  number of nanoseconds; \<open>a.Add(d).Before(b)\<close> is \<open>a + d < b\<close> and \<open>b.Sub(a)\<close> is
  \<open>b - a\<close>.
\<close>

subsection \<open>Outcomes\<close>

text \<open>
  A call either returns, or it does not: it panics, or it blocks with nothing in this
  goroutine left to wake it. The second kind is a \<open>fault\<close>.
\<close>

datatype fault =
    NilDereference
  | SendOnClosedChannel
  | CloseOfClosedChannel
  | UnlockOfUnlockedMutex
  | BlocksForever

datatype ctx_err = Canceled | DeadlineExceeded

text \<open>The values of Go's \<open>error\<close> that \<open>GetWithCtx\<close> returns.\<close>

datatype error =
    ErrPoolExhausted
  | ErrGetOnClosedPool
  | ErrContext ctx_err
  | ErrNewPage nat

definition and_then :: "fault + 'a \<Rightarrow> ('a \<Rightarrow> fault + 'b) \<Rightarrow> fault + 'b" where
  "and_then m f = (case m of Inl x \<Rightarrow> Inl x | Inr a \<Rightarrow> f a)"

subsection \<open>Data\<close>

type_synonym addr = nat

text \<open>
  \<open>PoolConn\<close>: a node of the idle list. The field \<open>t\<close> of the source is \<open>t_put\<close>, the
  fields \<open>next\<close> and \<open>prev\<close> are \<open>next_pc\<close> and \<open>prev_pc\<close>. The field \<open>pool\<close> is left
  out: there is one pool. A \<open>*rod.Page\<close> is a number, or nil.
\<close>

record PoolConn =
  page :: "nat option"
  t_put :: int
  created :: int
  next_pc :: "addr option"
  prev_pc :: "addr option"

text \<open>\<open>idleList\<close>; its field \<open>back\<close> is \<open>back_pc\<close>.\<close>

record idleList =
  count :: int
  front :: "addr option"
  back_pc :: "addr option"

text \<open>The channel \<open>chan struct{}\<close>: its capacity, the tokens it buffers, whether it is closed.\<close>

record chan =
  ch_cap :: int
  ch_len :: int
  ch_closed :: bool

record PoolStats =
  ActiveCount :: int
  IdleCount :: int
  WaitCount :: int
  WaitDuration :: int

text \<open>
  \<open>Pool\<close>, with the mutex \<open>mu\<close> as the flag "held" and \<open>initOnce\<close> as the flag "done".
  The record \<open>world\<close> adds what the pool's pointers point into and what its calls leave
  behind: the store of nodes, the next unused address, the number of clock readings so
  far, the nodes whose page was closed (in order), whether some page was closed while
  the mutex was held, and what \<open>Stats\<close> would have shown each time the mutex was
  released (\<open>active\<close> and \<open>idle.count\<close>).
\<close>

record Pool =
  InitActive :: int
  MaxIdle :: int
  MaxActive :: int
  IdleTimeout :: int
  Wait :: bool
  MaxConnLifetime :: int
  mu :: bool
  closed :: bool
  active :: int
  initOnce :: bool
  ch :: "chan option"
  idle :: idleList
  waitCount :: int
  waitDuration :: int

record world = Pool +
  heap :: "addr \<Rightarrow> PoolConn"
  nalloc :: nat
  ticks :: nat
  closes :: "addr list"
  locked_io :: bool
  seen :: "(int \<times> int) list"

text \<open>
  What the goroutine does not decide: the clock (its n-th reading), the caller's
  context (done when the outer \<open>select\<close> runs or while it waits; done at the inner
  \<open>select\<close>; its error), the runtime's choice when both cases of the outer \<open>select\<close>
  are ready, the health probe \<open>TestOnBorrow\<close> (True: it returned nil), and the browser's
  answer to the n-th page creation (a page, or the code of its error).
\<close>

record env =
  clock :: "nat \<Rightarrow> int"
  ctx_done_select :: bool
  ctx_done_recheck :: bool
  ctx_Err :: ctx_err
  select_picks_ctx :: bool
  TestOnBorrow :: "nat option \<Rightarrow> bool"
  newPage :: "nat \<Rightarrow> nat + nat"

subsection \<open>Clock, mutex, channel\<close>

definition nowFunc :: "env \<Rightarrow> world \<Rightarrow> int \<times> world" where
  "nowFunc e s = (clock e (ticks s), s\<lparr>ticks := Suc (ticks s)\<rparr>)"

definition lock :: "world \<Rightarrow> fault + world" where
  "lock s = (if mu s then Inl BlocksForever else Inr (s\<lparr>mu := True\<rparr>))"

definition unlock :: "world \<Rightarrow> fault + world" where
  "unlock s =
     (if mu s then Inr (s\<lparr>mu := False, seen := seen s @ [(active s, count (idle s))]\<rparr>)
      else Inl UnlockOfUnlockedMutex)"

definition chan_send :: "chan \<Rightarrow> fault + chan" where
  "chan_send c =
     (if ch_closed c then Inl SendOnClosedChannel
      else if ch_len c < ch_cap c then Inr (c\<lparr>ch_len := ch_len c + 1\<rparr>)
      else Inl BlocksForever)"

definition chan_ready :: "chan \<Rightarrow> bool" where
  "chan_ready c = (0 < ch_len c \<or> ch_closed c)"

definition chan_recv :: "chan \<Rightarrow> fault + chan" where
  "chan_recv c =
     (if 0 < ch_len c then Inr (c\<lparr>ch_len := ch_len c - 1\<rparr>)
      else if ch_closed c then Inr c
      else Inl BlocksForever)"

definition chan_close :: "chan \<Rightarrow> fault + chan" where
  "chan_close c =
     (if ch_closed c then Inl CloseOfClosedChannel else Inr (c\<lparr>ch_closed := True\<rparr>))"

text \<open>\<open>p.ch <- struct{}{}\<close>; a send on the nil channel never completes.\<close>

definition send_token :: "world \<Rightarrow> fault + world" where
  "send_token s =
     (case ch s of
        None \<Rightarrow> Inl BlocksForever
      | Some c \<Rightarrow> and_then (chan_send c) (\<lambda>c'. Inr (s\<lparr>ch := Some c'\<rparr>)))"

text \<open>\<open>pc.page.Close()\<close> and \<open>pc.c.Close()\<close>: the page of node \<open>pc\<close> is closed.\<close>

definition page_Close :: "addr \<Rightarrow> world \<Rightarrow> world" where
  "page_Close pc s = s\<lparr>closes := closes s @ [pc], locked_io := locked_io s \<or> mu s\<rparr>"

subsection \<open>idleList\<close>

text \<open>
  The three list operations work on the list header and the store of nodes. Reading a
  field through a nil pointer panics.
\<close>

definition pushFront :: "addr \<Rightarrow> idleList \<times> (addr \<Rightarrow> PoolConn) \<Rightarrow> fault + idleList \<times> (addr \<Rightarrow> PoolConn)" where
  "pushFront pc lh =
     (let l = fst lh; h = snd lh;
          h1 = h(pc := (h pc)\<lparr>next_pc := front l, prev_pc := None\<rparr>)
      in and_then
           (if count l = 0 then Inr (l\<lparr>back_pc := Some pc\<rparr>, h1)
            else (case front l of
                    None \<Rightarrow> Inl NilDereference
                  | Some f \<Rightarrow> Inr (l, h1(f := (h1 f)\<lparr>prev_pc := Some pc\<rparr>))))
           (\<lambda>(l2, h2). Inr (l2\<lparr>front := Some pc, count := count l2 + 1\<rparr>, h2)))"

definition popFront :: "idleList \<times> (addr \<Rightarrow> PoolConn) \<Rightarrow> fault + idleList \<times> (addr \<Rightarrow> PoolConn)" where
  "popFront lh =
     (let l = fst lh; h = snd lh; pc = front l; l1 = l\<lparr>count := count l - 1\<rparr>
      in and_then
           (if count l1 = 0 then Inr (l1\<lparr>front := None, back_pc := None\<rparr>, h)
            else (case pc of
                    None \<Rightarrow> Inl NilDereference
                  | Some a \<Rightarrow>
                      (case next_pc (h a) of
                         None \<Rightarrow> Inl NilDereference
                       | Some n \<Rightarrow>
                           (let h1 = h(n := (h n)\<lparr>prev_pc := None\<rparr>)
                            in Inr (l1\<lparr>front := next_pc (h1 a)\<rparr>, h1)))))
           (\<lambda>(l2, h2).
              case pc of
                None \<Rightarrow> Inl NilDereference
              | Some a \<Rightarrow> Inr (l2, h2(a := (h2 a)\<lparr>next_pc := None, prev_pc := None\<rparr>))))"

definition popBack :: "idleList \<times> (addr \<Rightarrow> PoolConn) \<Rightarrow> fault + idleList \<times> (addr \<Rightarrow> PoolConn)" where
  "popBack lh =
     (let l = fst lh; h = snd lh; pc = back_pc l; l1 = l\<lparr>count := count l - 1\<rparr>
      in and_then
           (if count l1 = 0 then Inr (l1\<lparr>front := None, back_pc := None\<rparr>, h)
            else (case pc of
                    None \<Rightarrow> Inl NilDereference
                  | Some a \<Rightarrow>
                      (case prev_pc (h a) of
                         None \<Rightarrow> Inl NilDereference
                       | Some b \<Rightarrow>
                           (let h1 = h(b := (h b)\<lparr>next_pc := None\<rparr>)
                            in Inr (l1\<lparr>back_pc := prev_pc (h1 a)\<rparr>, h1)))))
           (\<lambda>(l2, h2).
              case pc of
                None \<Rightarrow> Inl NilDereference
              | Some a \<Rightarrow> Inr (l2, h2(a := (h2 a)\<lparr>next_pc := None, prev_pc := None\<rparr>))))"

text \<open>The same operations on the pool's own list: \<open>p.idle.pushFront(pc)\<close> and so on.\<close>

definition idle_pushFront :: "addr \<Rightarrow> world \<Rightarrow> fault + world" where
  "idle_pushFront pc s =
     and_then (pushFront pc (idle s, heap s)) (\<lambda>(l, h). Inr (s\<lparr>idle := l, heap := h\<rparr>))"

definition idle_popFront :: "world \<Rightarrow> fault + world" where
  "idle_popFront s =
     and_then (popFront (idle s, heap s)) (\<lambda>(l, h). Inr (s\<lparr>idle := l, heap := h\<rparr>))"

definition idle_popBack :: "world \<Rightarrow> fault + world" where
  "idle_popBack s =
     and_then (popBack (idle s, heap s)) (\<lambda>(l, h). Inr (s\<lparr>idle := l, heap := h\<rparr>))"

subsection \<open>The admission channel\<close>

text \<open>The loop of \<open>lazyInit\<close> that fills the new channel: \<open>for i := 0; i < p.MaxActive; i++\<close>.\<close>

function fill :: "int \<Rightarrow> int \<Rightarrow> chan \<Rightarrow> fault + chan" where
  "fill i n c =
     (if i < n then (case chan_send c of Inl x \<Rightarrow> Inl x | Inr c' \<Rightarrow> fill (i + 1) n c')
      else Inr c)"
  by pat_completeness auto
termination
  by (relation "measure (\<lambda>(i, n, c). nat (n - i))") auto

declare fill.simps [simp del]

definition lazyInit :: "world \<Rightarrow> fault + world" where
  "lazyInit s =
     (if initOnce s then Inr s
      else (let c = \<lparr>ch_cap = MaxActive s, ch_len = 0, ch_closed = False\<rparr>
            in and_then (if closed s then chan_close c else fill 0 (MaxActive s) c)
                 (\<lambda>c'. Inr (s\<lparr>ch := Some c', initOnce := True\<rparr>))))"

text \<open>
  \<open>waitVacantConn\<close>. The outer \<open>select\<close> takes the channel case when the channel is
  ready and either the context is not done or the runtime picks the channel; it takes
  the context case when the context is done and the channel case was not taken; with
  neither ready it blocks. The result is the state and \<open>(waited, err)\<close>.
\<close>

definition waitVacantConn :: "env \<Rightarrow> world \<Rightarrow> fault + world \<times> (error + int)" where
  "waitVacantConn e s =
     (if \<not> Wait s \<or> MaxActive s \<le> 0 then Inr (s, Inr 0)
      else and_then (lazyInit s) (\<lambda>s1.
        let wait = ((case ch s1 of None \<Rightarrow> 0 | Some c \<Rightarrow> ch_len c) = 0);
            (start, s2) = (if wait then nowFunc e s1 else (0, s1));
            ready = (case ch s2 of None \<Rightarrow> False | Some c \<Rightarrow> chan_ready c)
        in if ready \<and> \<not> (ctx_done_select e \<and> select_picks_ctx e) then
             (case ch s2 of
                None \<Rightarrow> Inl BlocksForever
              | Some c \<Rightarrow>
                  and_then (chan_recv c) (\<lambda>c'.
                    let s3 = s2\<lparr>ch := Some c'\<rparr>
                    in if ctx_done_recheck e then
                         and_then (send_token s3) (\<lambda>s4. Inr (s4, Inl (ErrContext (ctx_Err e))))
                       else if wait then
                         (let (now, s4) = nowFunc e s3 in Inr (s4, Inr (now - start)))
                       else Inr (s3, Inr 0)))
           else if ctx_done_select e then Inr (s2, Inl (ErrContext (ctx_Err e)))
           else Inl BlocksForever))"

subsection \<open>Acquire\<close>

text \<open>
  \<open>newConn\<close>: the browser answers the creation; the new node takes the next unused
  address. \<open>time.Time{}\<close> is 0.
\<close>

definition newConn :: "env \<Rightarrow> world \<Rightarrow> world \<times> (error + addr)" where
  "newConn e s =
     (case newPage e (nalloc s) of
        Inl code \<Rightarrow> (s, Inl (ErrNewPage code))
      | Inr pg \<Rightarrow>
          (let (now, s1) = nowFunc e s; a = nalloc s1
           in (s1\<lparr>heap := (heap s1)(a := \<lparr>page = Some pg, t_put = 0, created = now,
                                          next_pc = None, prev_pc = None\<rparr>),
                  nalloc := Suc a\<rparr>, Inr a)))"

text \<open>
  One round of the pruning loop of \<open>GetWithCtx\<close>, after its condition held:
  \<open>p.idle.popBack(); p.mu.Unlock(); pc.page.Close(); p.mu.Lock(); p.active--\<close>.
\<close>

definition prune_body :: "addr \<Rightarrow> world \<Rightarrow> fault + world" where
  "prune_body pc s =
     and_then (idle_popBack s) (\<lambda>s1.
     and_then (unlock s1) (\<lambda>s2.
     and_then (lock (page_Close pc s2)) (\<lambda>s3.
     Inr (s3\<lparr>active := active s3 - 1\<rparr>))))"

text \<open>
  The pruning loop \<open>for i := 0; i < n && p.idle.back != nil &&
  p.idle.back.t.Add(p.IdleTimeout).Before(nowFunc()); i++\<close>. It returns the state and
  the final \<open>i\<close>, the number of rounds.
\<close>

function prune :: "env \<Rightarrow> int \<Rightarrow> int \<Rightarrow> world \<Rightarrow> fault + world \<times> int" where
  "prune e i n s =
     (if i < n then
        (case back_pc (idle s) of
           None \<Rightarrow> Inr (s, i)
         | Some pc \<Rightarrow>
             (let (now, s1) = nowFunc e s
              in if t_put (heap s1 pc) + IdleTimeout s1 < now then
                   (case prune_body pc s1 of
                      Inl x \<Rightarrow> Inl x
                    | Inr s2 \<Rightarrow> prune e (i + 1) n s2)
                 else Inr (s1, i)))
      else Inr (s, i))"
  by pat_completeness auto
termination
  by (relation "measure (\<lambda>(e, i, n, s). nat (n - i))") auto

declare prune.simps [simp del]

text \<open>\<open>if p.IdleTimeout > 0 { n := p.idle.count; for ... }\<close>\<close>

definition prune_stale :: "env \<Rightarrow> world \<Rightarrow> fault + world \<times> int" where
  "prune_stale e s =
     (if 0 < IdleTimeout s then prune e 0 (count (idle s)) s else Inr (s, 0))"

text \<open>
  The test of the reuse loop, \<open>p.TestOnBorrow(pc.page) == nil && (p.MaxConnLifetime == 0
  || nowFunc().Sub(pc.created) < p.MaxConnLifetime)\<close>: the clock is read only when the
  probe passed and a lifetime is set.
\<close>

definition usable :: "env \<Rightarrow> addr \<Rightarrow> world \<Rightarrow> bool \<times> world" where
  "usable e pc s =
     (if TestOnBorrow e (page (heap s pc)) then
        (if MaxConnLifetime s = 0 then (True, s)
         else (let (now, s1) = nowFunc e s
               in (now - created (heap s1 pc) < MaxConnLifetime s1, s1)))
      else (False, s))"

text \<open>
  The reuse loop \<open>for p.idle.front != nil\<close>. It returns the state and the node handed
  out, or nil when the list ran empty. On an ill-formed store it need not return.
\<close>

partial_function (option) reuse :: "env \<Rightarrow> world \<Rightarrow> (fault + world \<times> addr option) option" where
  "reuse e s =
     (case front (idle s) of
        None \<Rightarrow> Some (Inr (s, None))
      | Some pc \<Rightarrow>
          (case and_then (idle_popFront s) unlock of
             Inl x \<Rightarrow> Some (Inl x)
           | Inr s1 \<Rightarrow>
               (let (ok, s2) = usable e pc s1
                in if ok then Some (Inr (s2, Some pc))
                   else (case lock (page_Close pc s2) of
                           Inl x \<Rightarrow> Some (Inl x)
                         | Inr s3 \<Rightarrow> reuse e (s3\<lparr>active := active s3 - 1\<rparr>)))))"

declare reuse.simps [code]

text \<open>
  The rest of \<open>GetWithCtx\<close>, from "Check for pool closed before dialing a new
  connection" on. The mutex is held on entry.
\<close>

definition dial :: "env \<Rightarrow> world \<Rightarrow> fault + world \<times> (error + addr)" where
  "dial e s =
     (if closed s then and_then (unlock s) (\<lambda>s1. Inr (s1, Inl ErrGetOnClosedPool))
      else if \<not> Wait s \<and> 0 < MaxActive s \<and> MaxActive s \<le> active s then
        and_then (unlock s) (\<lambda>s1. Inr (s1, Inl ErrPoolExhausted))
      else
        and_then (unlock (s\<lparr>active := active s + 1\<rparr>)) (\<lambda>s1.
          case newConn e s1 of
            (s2, Inr conn) \<Rightarrow> Inr (s2, Inr conn)
          | (s2, Inl err) \<Rightarrow>
              and_then (lock s2) (\<lambda>s3.
              let s4 = s3\<lparr>active := active s3 - 1\<rparr>
              in and_then (if ch s4 \<noteq> None \<and> \<not> closed s4 then send_token s4 else Inr s4) (\<lambda>s5.
                 and_then (unlock s5) (\<lambda>s6. Inr (s6, Inl err))))))"

definition GetWithCtx :: "env \<Rightarrow> world \<Rightarrow> (fault + world \<times> (error + addr)) option" where
  "GetWithCtx e s =
     (case waitVacantConn e s of
        Inl x \<Rightarrow> Some (Inl x)
      | Inr (s1, Inl err) \<Rightarrow> Some (Inr (s1, Inl err))
      | Inr (s1, Inr waited) \<Rightarrow>
          (case lock s1 of
             Inl x \<Rightarrow> Some (Inl x)
           | Inr s2 \<Rightarrow>
               (let s3 = (if 0 < waited
                          then s2\<lparr>waitCount := waitCount s2 + 1,
                                  waitDuration := waitDuration s2 + waited\<rparr>
                          else s2)
                in case prune_stale e s3 of
                     Inl x \<Rightarrow> Some (Inl x)
                   | Inr (s4, i) \<Rightarrow>
                       (case reuse e s4 of
                          None \<Rightarrow> None
                        | Some (Inl x) \<Rightarrow> Some (Inl x)
                        | Some (Inr (s5, Some pc)) \<Rightarrow> Some (Inr (s5, Inr pc))
                        | Some (Inr (s5, None)) \<Rightarrow> Some (dial e s5)))))"

text \<open>
  \<open>Get\<close> calls \<open>GetWithCtx\<close> with \<open>context.Background()\<close>, which is never done, and
  keeps the first result only: the node, or nil.
\<close>

definition Get :: "env \<Rightarrow> world \<Rightarrow> (fault + world \<times> addr option) option" where
  "Get e s =
     (case GetWithCtx (e\<lparr>ctx_done_select := False, ctx_done_recheck := False\<rparr>) s of
        None \<Rightarrow> None
      | Some (Inl x) \<Rightarrow> Some (Inl x)
      | Some (Inr (s1, Inl err)) \<Rightarrow> Some (Inr (s1, None))
      | Some (Inr (s1, Inr c)) \<Rightarrow> Some (Inr (s1, Some c)))"

subsection \<open>Release\<close>

text \<open>
  The first block of \<open>put\<close>: with the pool open and no forced close the node is stamped
  and pushed, and the back node is taken out when the list is over \<open>MaxIdle\<close>. The
  result is the value of \<open>pc\<close> after the block.
\<close>

definition put_idle :: "env \<Rightarrow> addr \<Rightarrow> bool \<Rightarrow> world \<Rightarrow> fault + world \<times> addr option" where
  "put_idle e pc forceClose s =
     (if \<not> closed s \<and> \<not> forceClose then
        (let (now, s1) = nowFunc e s;
             s2 = s1\<lparr>heap := (heap s1)(pc := (heap s1 pc)\<lparr>t_put := now\<rparr>)\<rparr>
         in and_then (idle_pushFront pc s2) (\<lambda>s3.
              if MaxIdle s3 < count (idle s3) then
                and_then (idle_popBack s3) (\<lambda>s4. Inr (s4, back_pc (idle s3)))
              else Inr (s3, None)))
      else Inr (s, Some pc))"

definition put :: "env \<Rightarrow> addr \<Rightarrow> bool \<Rightarrow> world \<Rightarrow> fault + world" where
  "put e pc forceClose s =
     and_then (lock s) (\<lambda>s1.
     and_then (put_idle e pc forceClose s1) (\<lambda>(s2, pc').
     and_then (case pc' of
                 None \<Rightarrow> Inr s2
               | Some a \<Rightarrow>
                   and_then (unlock s2) (\<lambda>s3.
                   and_then (lock (page_Close a s3)) (\<lambda>s4.
                   Inr (s4\<lparr>active := active s4 - 1\<rparr>)))) (\<lambda>s5.
     and_then (if ch s5 \<noteq> None \<and> \<not> closed s5 then send_token s5 else Inr s5)
       unlock)))"

text \<open>
  \<open>Recycle\<close> of \<open>PoolConn\<close>: the receiver may be nil (then reading \<open>ac.page\<close> panics); a
  node without a page is left alone. The error returned is always nil.
\<close>

definition Recycle :: "env \<Rightarrow> addr option \<Rightarrow> world \<Rightarrow> fault + world" where
  "Recycle e ac s =
     (case ac of
        None \<Rightarrow> Inl NilDereference
      | Some a \<Rightarrow> (case page (heap s a) of None \<Rightarrow> Inr s | Some pg \<Rightarrow> put e a False s))"

subsection \<open>Stats and Close\<close>

definition Stats :: "world \<Rightarrow> fault + world \<times> PoolStats" where
  "Stats s =
     and_then (lock s) (\<lambda>s1.
     let stats = \<lparr>ActiveCount = active s1, IdleCount = count (idle s1),
                  WaitCount = waitCount s1, WaitDuration = waitDuration s1\<rparr>
     in and_then (unlock s1) (\<lambda>s2. Inr (s2, stats)))"

text \<open>The loop of \<open>Close\<close> over the detached chain: \<open>for ; pc != nil; pc = pc.next\<close>.\<close>

partial_function (option) close_chain :: "addr option \<Rightarrow> world \<Rightarrow> world option" where
  "close_chain pc s =
     (case pc of
        None \<Rightarrow> Some s
      | Some a \<Rightarrow> close_chain (next_pc (heap s a)) (page_Close a s))"

declare close_chain.simps [code]

text \<open>
  \<open>Close\<close>. The pool has no field \<open>rootCancel\<close> (its initialisation in \<open>NewPool\<close> is
  commented out); the call \<open>p.rootCancel()\<close> touches nothing that the pool reads and is
  left out. The error returned is always nil.
\<close>

definition Close :: "world \<Rightarrow> (fault + world) option" where
  "Close s =
     (case lock s of
        Inl x \<Rightarrow> Some (Inl x)
      | Inr s1 \<Rightarrow>
          if closed s1 then Some (unlock s1)
          else (let s2 = s1\<lparr>closed := True, active := active s1 - count (idle s1)\<rparr>;
                    pc = front (idle s2);
                    s3 = s2\<lparr>idle := (idle s2)\<lparr>count := 0, front := None, back_pc := None\<rparr>\<rparr>
                in case and_then
                          (case ch s3 of
                             None \<Rightarrow> Inr s3
                           | Some c \<Rightarrow> and_then (chan_close c) (\<lambda>c'. Inr (s3\<lparr>ch := Some c'\<rparr>)))
                          unlock of
                     Inl x \<Rightarrow> Some (Inl x)
                   | Inr s4 \<Rightarrow> map_option Inr (close_chain pc s4)))"

subsection \<open>Construction\<close>

text \<open>
  \<open>NewPool\<close> copies the configuration and runs \<open>InitActive\<close> rounds of "count, create,
  recycle"; a creation error panics (\<open>Recycle\<close> returns no error). Nodes not yet
  allocated hold zero values.
\<close>

datatype startup = StartupPanic error | StartupFault fault

definition blank :: PoolConn where
  "blank = \<lparr>page = None, t_put = 0, created = 0, next_pc = None, prev_pc = None\<rparr>"

definition fresh :: "Pool \<Rightarrow> world" where
  "fresh poolConfig =
     \<lparr>InitActive = InitActive poolConfig, MaxIdle = MaxIdle poolConfig,
      MaxActive = MaxActive poolConfig, IdleTimeout = IdleTimeout poolConfig,
      Wait = Wait poolConfig, MaxConnLifetime = MaxConnLifetime poolConfig,
      mu = False, closed = False, active = 0, initOnce = False, ch = None,
      idle = \<lparr>count = 0, front = None, back_pc = None\<rparr>,
      waitCount = 0, waitDuration = 0,
      heap = (\<lambda>a. blank), nalloc = 0, ticks = 0, closes = [], locked_io = False,
      seen = []\<rparr>"

function NewPool_loop :: "env \<Rightarrow> int \<Rightarrow> int \<Rightarrow> world \<Rightarrow> startup + world" where
  "NewPool_loop e i n s =
     (if i < n then
        (case newConn e (s\<lparr>active := active s + 1\<rparr>) of
           (s1, Inl err) \<Rightarrow> Inl (StartupPanic err)
         | (s1, Inr conn) \<Rightarrow>
             (case Recycle e (Some conn) s1 of
                Inl x \<Rightarrow> Inl (StartupFault x)
              | Inr s2 \<Rightarrow> NewPool_loop e (i + 1) n s2))
      else Inr s)"
  by pat_completeness auto
termination
  by (relation "measure (\<lambda>(e, i, n, s). nat (n - i))") auto

declare NewPool_loop.simps [simp del]

definition NewPool :: "env \<Rightarrow> Pool \<Rightarrow> startup + world" where
  "NewPool e poolConfig = NewPool_loop e 0 (InitActive poolConfig) (fresh poolConfig)"

subsection \<open>The idle list as a sequence\<close>

text \<open>
  The header and the store represent the sequence \<open>xs\<close> of idle nodes, front first:
  the count is its length, \<open>front\<close> and \<open>back\<close> point to its ends, no node occurs
  twice, and each node's \<open>prev\<close> and \<open>next\<close> are its neighbours. \<open>seg h p xs n\<close> is the
  linkage of a stretch \<open>xs\<close> that comes after \<open>p\<close> and before \<open>n\<close>.
\<close>

definition first_of :: "addr list \<Rightarrow> addr option" where
  "first_of xs = (case xs of [] \<Rightarrow> None | x # ys \<Rightarrow> Some x)"

definition last_of :: "addr list \<Rightarrow> addr option" where
  "last_of xs = (if xs = [] then None else Some (last xs))"

fun seg :: "(addr \<Rightarrow> PoolConn) \<Rightarrow> addr option \<Rightarrow> addr list \<Rightarrow> addr option \<Rightarrow> bool" where
  "seg h p [] n = True"
| "seg h p (x # xs) n =
     (prev_pc (h x) = p \<and> next_pc (h x) = (case xs of [] \<Rightarrow> n | y # ys \<Rightarrow> Some y)
      \<and> seg h (Some x) xs n)"

definition is_idle :: "idleList \<Rightarrow> (addr \<Rightarrow> PoolConn) \<Rightarrow> addr list \<Rightarrow> bool" where
  "is_idle l h xs =
     (count l = int (length xs) \<and> front l = first_of xs \<and> back_pc l = last_of xs
      \<and> distinct xs \<and> seg h None xs None)"

text \<open>Two stores hold the same pages and times: they differ in links only.\<close>

definition same_data :: "(addr \<Rightarrow> PoolConn) \<Rightarrow> (addr \<Rightarrow> PoolConn) \<Rightarrow> bool" where
  "same_data h h' =
     (page \<circ> h' = page \<circ> h \<and> t_put \<circ> h' = t_put \<circ> h \<and> created \<circ> h' = created \<circ> h)"

text \<open>
  What the loops of \<open>GetWithCtx\<close> and the list operations leave alone: the
  configuration, \<open>closed\<close>, the channel, the wait statistics, the allocation mark, the
  flag \<open>locked_io\<close>, and the pages and times of all nodes.
\<close>

definition keeps :: "world \<Rightarrow> world \<Rightarrow> bool" where
  "keeps s s' =
     (InitActive s' = InitActive s \<and> MaxIdle s' = MaxIdle s \<and> MaxActive s' = MaxActive s
      \<and> IdleTimeout s' = IdleTimeout s \<and> Wait s' = Wait s
      \<and> MaxConnLifetime s' = MaxConnLifetime s \<and> closed s' = closed s
      \<and> initOnce s' = initOnce s \<and> ch s' = ch s \<and> waitCount s' = waitCount s
      \<and> waitDuration s' = waitDuration s \<and> nalloc s' = nalloc s
      \<and> locked_io s' = locked_io s \<and> same_data (heap s) (heap s'))"

text \<open>
  Every state shown between \<open>s\<close> and \<open>s'\<close> (at a release of the mutex) had an idle
  count of at most \<open>m\<close>.
\<close>

definition seen_within :: "int \<Rightarrow> world \<Rightarrow> world \<Rightarrow> bool" where
  "seen_within m s s' =
     (take (length (seen s)) (seen s') = seen s
      \<and> list_all (\<lambda>ac. snd ac \<le> m) (drop (length (seen s)) (seen s')))"

text \<open>
  The channel is as \<open>lazyInit\<close> and \<open>Close\<close> leave it: it exists exactly when
  \<open>initOnce\<close> is done, only in the blocking configuration, with capacity \<open>MaxActive\<close>,
  and it is closed exactly when the pool is.
\<close>

definition chan_ok :: "world \<Rightarrow> bool" where
  "chan_ok s =
     (case ch s of
        None \<Rightarrow> \<not> initOnce s
      | Some c \<Rightarrow> initOnce s \<and> Wait s \<and> 0 < MaxActive s \<and> ch_cap c = MaxActive s
                  \<and> 0 \<le> ch_len c \<and> ch_len c \<le> ch_cap c \<and> ch_closed c = closed s)"

text \<open>The tokens in the semaphore; one not yet made counts as full.\<close>

definition tokens :: "world \<Rightarrow> int" where
  "tokens s = (case ch s of None \<Rightarrow> MaxActive s | Some c \<Rightarrow> ch_len c)"

text \<open>
  A state between two calls: the idle list is the sequence \<open>xs\<close>, the mutex is free,
  the channel is in order, and the idle nodes were allocated and hold a page.
\<close>

definition pool_ok :: "world \<Rightarrow> addr list \<Rightarrow> bool" where
  "pool_ok s xs =
     (is_idle (idle s) (heap s) xs \<and> \<not> mu s \<and> chan_ok s \<and> list_all (\<lambda>a. a < nalloc s \<and> page (heap s a) \<noteq> None) xs)"

subsection \<open>The loops of Acquire, as the specification words them\<close>

text \<open>
  Pruning, scanning from the back (\<open>ys\<close> is the idle sequence reversed): the entries
  closed are the longest run of back-most entries whose return time plus the timeout
  is before the clock reading taken for them; \<open>k\<close> is the number of readings so far.
\<close>

fun stale :: "(nat \<Rightarrow> int) \<Rightarrow> int \<Rightarrow> (addr \<Rightarrow> PoolConn) \<Rightarrow> nat \<Rightarrow> addr list \<Rightarrow> addr list" where
  "stale clk d h k [] = []"
| "stale clk d h k (y # ys) =
     (if t_put (h y) + d < clk k then y # stale clk d h (Suc k) ys else [])"

definition pruned :: "env \<Rightarrow> world \<Rightarrow> addr list \<Rightarrow> addr list" where
  "pruned e s xs =
     (if 0 < IdleTimeout s
      then stale (clock e) (IdleTimeout s) (heap s) (ticks s) (rev xs) else [])"

text \<open>
  Reuse, scanning from the front: an entry is handed out if and only if the probe
  passes and no lifetime is set or its age at the reading taken for it is below the
  lifetime; the entries before it are closed. The result is the entries closed, the
  entry handed out (if any) and the number of clock readings after the scan.
\<close>

fun first_usable ::
  "env \<Rightarrow> int \<Rightarrow> (addr \<Rightarrow> PoolConn) \<Rightarrow> nat \<Rightarrow> addr list \<Rightarrow> addr list \<times> addr option \<times> nat" where
  "first_usable e ml h k [] = ([], None, k)"
| "first_usable e ml h k (x # xs) =
     (if \<not> TestOnBorrow e (page (h x)) then
        (case first_usable e ml h k xs of (cl, r, k') \<Rightarrow> (x # cl, r, k'))
      else if ml = 0 then ([], Some x, k)
      else if clock e k - created (h x) < ml then ([], Some x, Suc k)
      else (case first_usable e ml h (Suc k) xs of (cl, r, k') \<Rightarrow> (x # cl, r, k')))"

subsection \<open>Sample runs\<close>

text \<open>
  An environment in which the clock advances by one at each reading, the context is
  never done, every probe passes and every creation succeeds; and the two
  configurations of the repository's tests, with the durations in seconds.
\<close>

definition sample_env :: env where
  "sample_env =
     \<lparr>clock = (\<lambda>n. 1000 + int n), ctx_done_select = False, ctx_done_recheck = False,
      ctx_Err = Canceled, select_picks_ctx = False, TestOnBorrow = (\<lambda>p. True),
      newPage = (\<lambda>n. Inr (100 + n))\<rparr>"

definition config :: "int \<Rightarrow> int \<Rightarrow> int \<Rightarrow> int \<Rightarrow> bool \<Rightarrow> int \<Rightarrow> Pool" where
  "config ia mi ma it w ml =
     \<lparr>InitActive = ia, MaxIdle = mi, MaxActive = ma, IdleTimeout = it, Wait = w,
      MaxConnLifetime = ml, mu = False, closed = False, active = 0, initOnce = False,
      ch = None, idle = \<lparr>count = 0, front = None, back_pc = None\<rparr>,
      waitCount = 0, waitDuration = 0\<rparr>"

definition blocking_config :: Pool where
  "blocking_config = config 3 5 6 60 True 3600"

definition nonblocking_config :: Pool where
  "nonblocking_config = config 1 10 20 60 False 3600"

text \<open>A pool of the second configuration that was closed before any page was made.\<close>

definition shut :: world where
  "shut = (fresh nonblocking_config)\<lparr>closed := True\<rparr>"

text \<open>
  The pool of the first configuration as \<open>NewPool\<close> returns it (three idle pages), and
  an environment whose clock is late enough for the oldest of them to be stale.
\<close>

definition warm :: world where
  "warm =
     (case NewPool sample_env blocking_config of
        Inr s \<Rightarrow> s
      | Inl x \<Rightarrow> fresh blocking_config)"

definition late_env :: env where
  "late_env = sample_env\<lparr>clock := (\<lambda>n. 1056 + int n)\<rparr>"

text \<open>An environment in which the probe fails for page 102 (the page of node 2).\<close>

definition picky_env :: env where
  "picky_env = sample_env\<lparr>TestOnBorrow := (\<lambda>p. p \<noteq> Some 102)\<rparr>"

section \<open>The idle list operations on sequences\<close>

lemma and_then_Inl [simp]: "and_then (Inl x) f = Inl x"
  by (simp add: and_then_def)

lemma and_then_Inr [simp]: "and_then (Inr a) f = f a"
  by (simp add: and_then_def)

lemma same_data_refl [simp]: "same_data h h"
  by (simp add: same_data_def)

lemma same_data_trans: "same_data h h1 \<Longrightarrow> same_data h1 h2 \<Longrightarrow> same_data h h2"
  by (simp add: same_data_def)

lemma same_data_page: "same_data h h' \<Longrightarrow> page (h' a) = page (h a)"
  by (auto simp: same_data_def comp_def dest: fun_cong)

lemma same_data_t_put: "same_data h h' \<Longrightarrow> t_put (h' a) = t_put (h a)"
  by (auto simp: same_data_def comp_def dest: fun_cong)

lemma same_data_created: "same_data h h' \<Longrightarrow> created (h' a) = created (h a)"
  by (auto simp: same_data_def comp_def dest: fun_cong)

lemma same_data_links:
  "same_data h (h(a := (h a)\<lparr>next_pc := n, prev_pc := p\<rparr>))"
  "same_data h (h(a := (h a)\<lparr>next_pc := n\<rparr>))"
  "same_data h (h(a := (h a)\<lparr>prev_pc := p\<rparr>))"
  by (auto simp: same_data_def comp_def fun_eq_iff)

lemma seg_frame:
  "(\<And>a. a \<in> set xs \<Longrightarrow> next_pc (h' a) = next_pc (h a) \<and> prev_pc (h' a) = prev_pc (h a))
   \<Longrightarrow> seg h' p xs n = seg h p xs n"
  by (induction xs arbitrary: p) auto

lemma seg_snoc:
  "seg h p (xs @ [x]) n =
     (seg h p xs (Some x) \<and> prev_pc (h x) = (if xs = [] then p else Some (last xs))
      \<and> next_pc (h x) = n)"
  by (induction xs arbitrary: p) (auto split: list.splits)

lemma seg_retarget:
  "xs \<noteq> [] \<Longrightarrow> distinct xs \<Longrightarrow> seg h p xs n
   \<Longrightarrow> seg (h(last xs := (h (last xs))\<lparr>next_pc := n'\<rparr>)) p xs n'"
proof (induction xs arbitrary: p)
  case Nil
  then show ?case by simp
next
  case (Cons x xs)
  show ?case
  proof (cases xs)
    case Nil
    with Cons.prems show ?thesis by simp
  next
    case (Cons y ys)
    with Cons.prems Cons.IH [of "Some x"] show ?thesis by auto
  qed
qed

lemma pushFront_is_idle:
  assumes "is_idle l h xs" and "pc \<notin> set xs"
  shows "\<exists>l' h'. pushFront pc (l, h) = Inr (l', h') \<and> is_idle l' h' (pc # xs) \<and> same_data h h'"
proof (cases xs)
  case Nil
  with assms show ?thesis
    by (simp add: pushFront_def is_idle_def first_of_def last_of_def same_data_links)
next
  case (Cons y ys)
  let ?h1 = "h(pc := (h pc)\<lparr>next_pc := Some y, prev_pc := None\<rparr>)"
  let ?h2 = "?h1(y := (?h1 y)\<lparr>prev_pc := Some pc\<rparr>)"
  from assms Cons have ne: "pc \<noteq> y" "pc \<notin> set ys" "y \<notin> set ys" "distinct ys"
    by (auto simp: is_idle_def)
  have run: "pushFront pc (l, h) = Inr (l\<lparr>front := Some pc, count := count l + 1\<rparr>, ?h2)"
    using assms Cons by (simp add: pushFront_def is_idle_def first_of_def Let_def)
  have "seg ?h2 (Some y) ys None = seg h (Some y) ys None"
    using ne by (intro seg_frame) auto
  then have "seg ?h2 None (pc # y # ys) None"
    using assms Cons ne by (simp add: is_idle_def)
  then have "is_idle (l\<lparr>front := Some pc, count := count l + 1\<rparr>) ?h2 (pc # xs)"
    using assms Cons ne by (simp add: is_idle_def first_of_def last_of_def)
  moreover have "same_data h ?h2"
    by (auto simp: same_data_def comp_def fun_eq_iff)
  ultimately show ?thesis using run by blast
qed

lemma popFront_is_idle:
  assumes "is_idle l h (x # xs)"
  shows "\<exists>l' h'. popFront (l, h) = Inr (l', h') \<and> is_idle l' h' xs \<and> same_data h h'
           \<and> next_pc (h' x) = None \<and> prev_pc (h' x) = None"
proof (cases xs)
  case Nil
  with assms show ?thesis
    by (simp add: popFront_def is_idle_def first_of_def last_of_def same_data_links Let_def)
next
  case (Cons y ys)
  let ?h1 = "h(y := (h y)\<lparr>prev_pc := None\<rparr>)"
  let ?h2 = "?h1(x := (?h1 x)\<lparr>next_pc := None, prev_pc := None\<rparr>)"
  let ?l = "l\<lparr>count := count l - 1, front := Some y\<rparr>"
  from assms Cons have ne: "x \<noteq> y" "x \<notin> set ys" "y \<notin> set ys" "distinct ys"
    by (auto simp: is_idle_def)
  have run: "popFront (l, h) = Inr (?l, ?h2)"
    using assms Cons ne by (simp add: popFront_def is_idle_def first_of_def Let_def)
  have "seg ?h2 (Some y) ys None = seg h (Some y) ys None"
    using ne by (intro seg_frame) auto
  then have "seg ?h2 None (y # ys) None"
    using assms Cons ne by (simp add: is_idle_def)
  then have "is_idle ?l ?h2 xs"
    using assms Cons ne by (simp add: is_idle_def first_of_def last_of_def)
  moreover have "same_data h ?h2"
    by (auto simp: same_data_def comp_def fun_eq_iff)
  ultimately show ?thesis using run by auto
qed

lemma popBack_is_idle:
  assumes "is_idle l h (xs @ [x])"
  shows "\<exists>l' h'. popBack (l, h) = Inr (l', h') \<and> is_idle l' h' xs \<and> same_data h h'
           \<and> next_pc (h' x) = None \<and> prev_pc (h' x) = None"
proof (cases "xs = []")
  case True
  with assms show ?thesis
    by (simp add: popBack_def is_idle_def first_of_def last_of_def same_data_links Let_def)
next
  case False
  let ?b = "last xs"
  let ?h1 = "h(?b := (h ?b)\<lparr>next_pc := None\<rparr>)"
  let ?h2 = "?h1(x := (?h1 x)\<lparr>next_pc := None, prev_pc := None\<rparr>)"
  let ?l = "l\<lparr>count := count l - 1, back_pc := Some ?b\<rparr>"
  from assms have d: "distinct xs" "x \<notin> set xs" and sg: "seg h None (xs @ [x]) None"
    by (auto simp: is_idle_def)
  from False d have bx: "?b \<noteq> x" by (metis last_in_set)
  from sg False have px: "prev_pc (h x) = Some ?b" and sx: "seg h None xs (Some x)"
    by (simp_all add: seg_snoc)
  have run: "popBack (l, h) = Inr (?l, ?h2)"
    using assms False px bx by (simp add: popBack_def is_idle_def last_of_def Let_def)
  have "seg ?h1 None xs None"
    using seg_retarget [OF False d(1) sx] .
  moreover have "seg ?h2 None xs None = seg ?h1 None xs None"
    using d by (intro seg_frame) auto
  ultimately have "is_idle ?l ?h2 xs"
    using assms False by (cases xs) (auto simp: is_idle_def first_of_def last_of_def)
  moreover have "same_data h ?h2"
    by (auto simp: same_data_def comp_def fun_eq_iff)
  ultimately show ?thesis using run by auto
qed

section \<open>Steps of the pool on a well-formed idle list\<close>

lemma keeps_refl [simp]: "keeps s s"
  by (simp add: keeps_def)

lemma keeps_trans: "keeps s s1 \<Longrightarrow> keeps s1 s2 \<Longrightarrow> keeps s s2"
  by (auto simp: keeps_def intro: same_data_trans)

lemma seen_within_refl [simp]: "seen_within m s s"
  by (simp add: seen_within_def)

lemma seen_within_trans:
  "seen_within m s s1 \<Longrightarrow> seen_within m' s1 s2 \<Longrightarrow> m' \<le> m \<Longrightarrow> seen_within m s s2"
proof -
  assume a: "seen_within m s s1" and b: "seen_within m' s1 s2" and le: "m' \<le> m"
  from a obtain n1 where s1: "seen s1 = seen s @ n1" and p1: "list_all (\<lambda>ac. snd ac \<le> m) n1"
    unfolding seen_within_def by (metis append_take_drop_id)
  from b obtain n2 where s2: "seen s2 = seen s1 @ n2" and p2: "list_all (\<lambda>ac. snd ac \<le> m') n2"
    unfolding seen_within_def by (metis append_take_drop_id)
  from p2 le have "list_all (\<lambda>ac. snd ac \<le> m) n2"
    by (auto simp: list_all_iff)
  with s1 s2 p1 show ?thesis
    by (simp add: seen_within_def)
qed

lemma seen_within_app:
  "seen s' = seen s @ new \<Longrightarrow> list_all (\<lambda>ac. snd ac \<le> m) new \<Longrightarrow> seen_within m s s'"
  by (simp add: seen_within_def)

lemma idle_popBack_run:
  assumes "is_idle (idle s) (heap s) (xs @ [x])"
  shows "\<exists>l' h'. idle_popBack s = Inr (s\<lparr>idle := l', heap := h'\<rparr>) \<and> is_idle l' h' xs
           \<and> same_data (heap s) h'"
proof -
  from popBack_is_idle [OF assms] obtain l' h' where
    "popBack (idle s, heap s) = Inr (l', h')" "is_idle l' h' xs" "same_data (heap s) h'"
    by blast
  then have "idle_popBack s = Inr (s\<lparr>idle := l', heap := h'\<rparr>) \<and> is_idle l' h' xs
           \<and> same_data (heap s) h'"
    by (simp add: idle_popBack_def)
  then show ?thesis by blast
qed

lemma idle_popFront_run:
  assumes "is_idle (idle s) (heap s) (x # xs)"
  shows "\<exists>l' h'. idle_popFront s = Inr (s\<lparr>idle := l', heap := h'\<rparr>) \<and> is_idle l' h' xs
           \<and> same_data (heap s) h'"
proof -
  from popFront_is_idle [OF assms] obtain l' h' where
    "popFront (idle s, heap s) = Inr (l', h')" "is_idle l' h' xs" "same_data (heap s) h'"
    by blast
  then have "idle_popFront s = Inr (s\<lparr>idle := l', heap := h'\<rparr>) \<and> is_idle l' h' xs
           \<and> same_data (heap s) h'"
    by (simp add: idle_popFront_def)
  then show ?thesis by blast
qed

lemma idle_pushFront_run:
  assumes "is_idle (idle s) (heap s) xs" and "pc \<notin> set xs"
  shows "\<exists>l' h'. idle_pushFront pc s = Inr (s\<lparr>idle := l', heap := h'\<rparr>) \<and> is_idle l' h' (pc # xs)
           \<and> same_data (heap s) h'"
proof -
  from pushFront_is_idle [OF assms] obtain l' h' where
    "pushFront pc (idle s, heap s) = Inr (l', h')" "is_idle l' h' (pc # xs)" "same_data (heap s) h'"
    by blast
  then have "idle_pushFront pc s = Inr (s\<lparr>idle := l', heap := h'\<rparr>) \<and> is_idle l' h' (pc # xs)
           \<and> same_data (heap s) h'"
    by (simp add: idle_pushFront_def)
  then show ?thesis by blast
qed

lemma is_idle_count: "is_idle l h xs \<Longrightarrow> count l = int (length xs)"
  by (simp add: is_idle_def)

lemma prune_body_run:
  assumes "is_idle (idle s) (heap s) (xs @ [x])" and "mu s"
  shows "\<exists>l' h'. prune_body x s =
            Inr (s\<lparr>idle := l', heap := h', seen := seen s @ [(active s, int (length xs))],
                   closes := closes s @ [x], active := active s - 1\<rparr>)
           \<and> is_idle l' h' xs \<and> same_data (heap s) h'"
proof -
  from idle_popBack_run [OF assms(1)] obtain l' h' where
    pop: "idle_popBack s = Inr (s\<lparr>idle := l', heap := h'\<rparr>)" and
    idl: "is_idle l' h' xs" and sd: "same_data (heap s) h'" by blast
  have "prune_body x s =
            Inr (s\<lparr>idle := l', heap := h', seen := seen s @ [(active s, int (length xs))],
                   closes := closes s @ [x], active := active s - 1\<rparr>)"
    using assms(2) idl
    by (simp add: prune_body_def pop unlock_def lock_def page_Close_def is_idle_count)
  with idl sd show ?thesis by blast
qed

text \<open>Whatever the state, a round that returns closed one page and discounted it.\<close>

lemma prune_body_counts:
  assumes "prune_body pc s = Inr s'"
  shows "active s' = active s - 1 \<and> closes s' = closes s @ [pc]"
  using assms
  by (auto simp: prune_body_def idle_popBack_def popBack_def unlock_def lock_def page_Close_def
        and_then_def Let_def split: sum.splits if_splits option.splits prod.splits)

lemma prune_counts:
  "prune e i n s = Inr (s', j) \<Longrightarrow>
     i \<le> j \<and> j \<le> max i n \<and> active s' = active s - (j - i)
     \<and> length (closes s') = length (closes s) + nat (j - i)"
proof (induction e i n s arbitrary: s' j rule: prune.induct)
  case (1 e i n s)
  show ?case
  proof (cases "i < n")
    case False
    with "1.prems" show ?thesis by (simp add: prune.simps)
  next
    case lt: True
    show ?thesis
    proof (cases "back_pc (idle s)")
      case None
      with lt "1.prems" show ?thesis by (simp add: prune.simps)
    next
      case (Some pc)
      obtain now s1 where nf: "nowFunc e s = (now, s1)" by (cases "nowFunc e s")
      then have s1: "active s1 = active s" "closes s1 = closes s"
        by (auto simp: nowFunc_def)
      show ?thesis
      proof (cases "t_put (heap s1 pc) + IdleTimeout s1 < now")
        case False
        with lt Some nf "1.prems" s1 show ?thesis
          by (simp add: prune.simps [of e i n s])
      next
        case stale: True
        show ?thesis
        proof (cases "prune_body pc s1")
          case (Inl x)
          with lt Some nf stale "1.prems" show ?thesis
            by (simp add: prune.simps [of e i n s])
        next
          case (Inr s2)
          with lt Some nf stale "1.prems" have rec: "prune e (i + 1) n s2 = Inr (s', j)"
            by (simp add: prune.simps [of e i n s])
          from "1.IH" [OF lt Some nf [symmetric] refl stale Inr rec]
          have "i + 1 \<le> j \<and> j \<le> max (i + 1) n \<and> active s' = active s2 - (j - (i + 1))
                 \<and> length (closes s') = length (closes s2) + nat (j - (i + 1))" .
          with prune_body_counts [OF Inr] s1 lt show ?thesis
            by (auto simp: nat_add_distrib)
        qed
      qed
    qed
  qed
qed

section \<open>The two loops of Acquire\<close>

lemma stale_same_data:
  "same_data h h' \<Longrightarrow> stale clk d h' k ys = stale clk d h k ys"
  by (induction ys arbitrary: k) (auto simp: same_data_t_put)

lemma stale_length: "length (stale clk d h k ys) \<le> length ys"
  by (induction ys arbitrary: k) auto

lemma stale_prefix: "stale clk d h k ys = take (length (stale clk d h k ys)) ys"
  by (induction ys arbitrary: k) auto

lemma prune_run:
  "is_idle (idle s) (heap s) (rev ys) \<Longrightarrow> mu s \<Longrightarrow> n = i + int (length ys) \<Longrightarrow>
   rm = stale (clock e) (IdleTimeout s) (heap s) (ticks s) ys \<Longrightarrow>
   \<exists>s'. prune e i n s = Inr (s', i + int (length rm))
      \<and> is_idle (idle s') (heap s') (rev (drop (length rm) ys)) \<and> mu s' \<and> keeps s s'
      \<and> closes s' = closes s @ rm \<and> active s' = active s - int (length rm)
      \<and> ticks s' = ticks s + length rm + (if length rm < length ys then 1 else 0)
      \<and> seen_within (int (length ys)) s s'"
proof (induction ys arbitrary: s i rm)
  case Nil
  then show ?case by (simp add: prune.simps)
next
  case (Cons y ys)
  let ?s1 = "s\<lparr>ticks := Suc (ticks s)\<rparr>"
  have nf: "nowFunc e s = (clock e (ticks s), ?s1)" by (simp add: nowFunc_def)
  from Cons.prems have lt: "i < n" by simp
  from Cons.prems have bk: "back_pc (idle s) = Some y" by (simp add: is_idle_def last_of_def)
  show ?case
  proof (cases "t_put (heap s y) + IdleTimeout s < clock e (ticks s)")
    case False
    with Cons.prems have rm: "rm = []" by simp
    from False lt bk nf have "prune e i n s = Inr (?s1, i)"
      by (simp add: prune.simps [of e i n s])
    moreover from Cons.prems have "is_idle (idle ?s1) (heap ?s1) (rev (y # ys))" by simp
    ultimately show ?thesis using rm Cons.prems(2)
      by (auto simp: keeps_def seen_within_def)
  next
    case True
    from Cons.prems(1) have idl: "is_idle (idle ?s1) (heap ?s1) (rev ys @ [y])" by simp
    from Cons.prems(2) have mu1: "mu ?s1" by simp
    from prune_body_run [OF idl mu1] obtain l' h' where
      body: "prune_body y ?s1 =
          Inr (?s1\<lparr>idle := l', heap := h', seen := seen ?s1 @ [(active ?s1, int (length (rev ys)))],
                   closes := closes ?s1 @ [y], active := active ?s1 - 1\<rparr>)" and
      idl': "is_idle l' h' (rev ys)" and sd: "same_data (heap s) h'"
      by auto
    let ?s2 = "?s1\<lparr>idle := l', heap := h', seen := seen ?s1 @ [(active ?s1, int (length (rev ys)))],
                   closes := closes ?s1 @ [y], active := active ?s1 - 1\<rparr>"
    define rm' where "rm' = stale (clock e) (IdleTimeout ?s2) (heap ?s2) (ticks ?s2) ys"
    from True Cons.prems(4) have rm: "rm = y # rm'"
      by (simp add: rm'_def stale_same_data [OF sd])
    have step: "prune e i n s = prune e (i + 1) n ?s2"
      using True lt bk nf body by (simp add: prune.simps [of e i n s])
    have "is_idle (idle ?s2) (heap ?s2) (rev ys)" "mu ?s2" "n = (i + 1) + int (length ys)"
      using idl' Cons.prems by simp_all
    from Cons.IH [OF this rm'_def] obtain s' where
      run: "prune e (i + 1) n ?s2 = Inr (s', i + 1 + int (length rm'))" and
      post: "is_idle (idle s') (heap s') (rev (drop (length rm') ys))" "mu s'" "keeps ?s2 s'"
        "closes s' = closes ?s2 @ rm'" "active s' = active ?s2 - int (length rm')"
        "ticks s' = ticks ?s2 + length rm' + (if length rm' < length ys then 1 else 0)"
        "seen_within (int (length ys)) ?s2 s'"
      by blast
    have k: "keeps s ?s2" using sd by (simp add: keeps_def)
    have sw: "seen_within (int (length (y # ys))) s ?s2"
      by (rule seen_within_app [where new = "[(active s, int (length ys))]"]) simp_all
    have "seen_within (int (length (y # ys))) s s'"
      by (rule seen_within_trans [OF sw post(7)]) simp
    with step run post rm keeps_trans [OF k post(3)] show ?thesis
      by (simp add: algebra_simps)
  qed
qed


lemma prune_stale_run:
  assumes "is_idle (idle s) (heap s) xs" and "mu s" and "rm = pruned e s xs"
  shows "\<exists>s'. prune_stale e s = Inr (s', int (length rm))
      \<and> is_idle (idle s') (heap s') (take (length xs - length rm) xs) \<and> mu s' \<and> keeps s s'
      \<and> closes s' = closes s @ rm \<and> active s' = active s - int (length rm)
      \<and> seen_within (int (length xs)) s s' \<and> ticks s \<le> ticks s'"
proof (cases "0 < IdleTimeout s")
  case False
  with assms show ?thesis by (simp add: prune_stale_def pruned_def)
next
  case True
  from assms(1) have idl: "is_idle (idle s) (heap s) (rev (rev xs))" by simp
  from assms(1) have n: "count (idle s) = 0 + int (length (rev xs))" by (simp add: is_idle_def)
  from True assms(3) have rm: "rm = stale (clock e) (IdleTimeout s) (heap s) (ticks s) (rev xs)"
    by (simp add: pruned_def)
  from prune_run [OF idl assms(2) n rm] True show ?thesis
    by (auto simp: prune_stale_def drop_rev)
qed

lemma first_usable_same_data:
  "same_data h h' \<Longrightarrow> first_usable e ml h' k xs = first_usable e ml h k xs"
  by (induction xs arbitrary: k) (auto simp: same_data_page same_data_created)

lemma reuse_run:
  "is_idle (idle s) (heap s) xs \<Longrightarrow> mu s \<Longrightarrow>
   first_usable e (MaxConnLifetime s) (heap s) (ticks s) xs = (cl, r, k') \<Longrightarrow>
   \<exists>s'. reuse e s = Some (Inr (s', r))
      \<and> is_idle (idle s') (heap s') (drop (length cl + (if r = None then 0 else 1)) xs)
      \<and> mu s' = (r = None) \<and> keeps s s'
      \<and> closes s' = closes s @ cl \<and> active s' = active s - int (length cl)
      \<and> ticks s' = k' \<and> seen_within (int (length xs)) s s'"
proof (induction xs arbitrary: s cl r k')
  case Nil
  then show ?case
    by (simp add: reuse.simps [of e s] is_idle_def first_of_def)
next
  case (Cons x xs)
  from Cons.prems(1) have fr: "front (idle s) = Some x" by (simp add: is_idle_def first_of_def)
  from idle_popFront_run [OF Cons.prems(1)] obtain l' h' where
    pop: "idle_popFront s = Inr (s\<lparr>idle := l', heap := h'\<rparr>)" and
    idl': "is_idle l' h' xs" and sd: "same_data (heap s) h'"
    by blast
  let ?s1 = "s\<lparr>idle := l', heap := h', mu := False,
                seen := seen s @ [(active s, int (length xs))]\<rparr>"
  have un: "and_then (idle_popFront s) unlock = Inr ?s1"
    using pop Cons.prems(2) idl' by (simp add: unlock_def is_idle_count)
  have k1: "keeps s ?s1" using sd by (simp add: keeps_def)
  have sw1: "seen_within (int (length (x # xs))) s ?s1"
    by (rule seen_within_app [where new = "[(active s, int (length xs))]"]) simp_all
  let ?ml = "MaxConnLifetime s"
  let ?healthy = "TestOnBorrow e (page (heap s x))"
  let ?young = "clock e (ticks s) - created (heap s x) < ?ml"
  have pg: "page (h' x) = page (heap s x)" "created (h' x) = created (heap s x)"
    using sd by (simp_all add: same_data_page same_data_created)
  consider (sick) "\<not> ?healthy" | (forever) "?healthy" "?ml = 0"
    | (young) "?healthy" "?ml \<noteq> 0" "?young" | (old) "?healthy" "?ml \<noteq> 0" "\<not> ?young"
    by blast
  then show ?case
  proof cases
    case sick
    let ?s4 = "?s1\<lparr>closes := closes s @ [x], mu := True, active := active s - 1\<rparr>"
    obtain cl0 where fu: "first_usable e ?ml (heap s) (ticks s) xs = (cl0, r, k')" and cl: "cl = x # cl0"
      using Cons.prems(3) sick by (auto split: prod.splits)
    have step: "reuse e s = reuse e ?s4"
      using fr un sick pg
      by (simp add: reuse.simps [of e s] usable_def lock_def page_Close_def)
    have "first_usable e (MaxConnLifetime ?s4) (heap ?s4) (ticks ?s4) xs = (cl0, r, k')"
      using fu by (simp add: first_usable_same_data [OF sd])
    from Cons.IH [OF _ _ this] idl' obtain s' where
      run: "reuse e ?s4 = Some (Inr (s', r))" and
      post: "is_idle (idle s') (heap s') (drop (length cl0 + (if r = None then 0 else 1)) xs)"
        "mu s' = (r = None)" "keeps ?s4 s'" "closes s' = closes ?s4 @ cl0"
        "active s' = active ?s4 - int (length cl0)" "ticks s' = k'"
        "seen_within (int (length xs)) ?s4 s'"
      by auto
    have k4: "keeps s ?s4" using sd by (simp add: keeps_def)
    have sw4: "seen_within (int (length (x # xs))) s ?s4"
      by (rule seen_within_app [where new = "[(active s, int (length xs))]"]) simp_all
    have "seen_within (int (length (x # xs))) s s'"
      by (rule seen_within_trans [OF sw4 post(7)]) simp
    with step run post cl keeps_trans [OF k4 post(3)] show ?thesis
      by (simp add: algebra_simps)
  next
    case forever
    with Cons.prems(3) have res: "cl = []" "r = Some x" "k' = ticks s" by auto
    have "reuse e s = Some (Inr (?s1, Some x))"
      using fr un forever pg by (simp add: reuse.simps [of e s] usable_def)
    with res idl' k1 sw1 show ?thesis by simp
  next
    case young
    with Cons.prems(3) have res: "cl = []" "r = Some x" "k' = Suc (ticks s)" by auto
    let ?s2 = "?s1\<lparr>ticks := Suc (ticks s)\<rparr>"
    have "reuse e s = Some (Inr (?s2, Some x))"
      using fr un young pg by (simp add: reuse.simps [of e s] usable_def nowFunc_def)
    moreover have "keeps s ?s2" using sd by (simp add: keeps_def)
    moreover have "seen_within (int (length (x # xs))) s ?s2"
      by (rule seen_within_app [where new = "[(active s, int (length xs))]"]) simp_all
    ultimately show ?thesis using res idl' by simp
  next
    case old
    let ?s4 = "?s1\<lparr>ticks := Suc (ticks s), closes := closes s @ [x], mu := True,
                    active := active s - 1\<rparr>"
    obtain cl0 where fu: "first_usable e ?ml (heap s) (Suc (ticks s)) xs = (cl0, r, k')"
      and cl: "cl = x # cl0"
      using Cons.prems(3) old by (auto split: prod.splits)
    have step: "reuse e s = reuse e ?s4"
      using fr un old pg
      by (simp add: reuse.simps [of e s] usable_def lock_def page_Close_def nowFunc_def)
    have "first_usable e (MaxConnLifetime ?s4) (heap ?s4) (ticks ?s4) xs = (cl0, r, k')"
      using fu by (simp add: first_usable_same_data [OF sd])
    from Cons.IH [OF _ _ this] idl' obtain s' where
      run: "reuse e ?s4 = Some (Inr (s', r))" and
      post: "is_idle (idle s') (heap s') (drop (length cl0 + (if r = None then 0 else 1)) xs)"
        "mu s' = (r = None)" "keeps ?s4 s'" "closes s' = closes ?s4 @ cl0"
        "active s' = active ?s4 - int (length cl0)" "ticks s' = k'"
        "seen_within (int (length xs)) ?s4 s'"
      by auto
    have k4: "keeps s ?s4" using sd by (simp add: keeps_def)
    have sw4: "seen_within (int (length (x # xs))) s ?s4"
      by (rule seen_within_app [where new = "[(active s, int (length xs))]"]) simp_all
    have "seen_within (int (length (x # xs))) s s'"
      by (rule seen_within_trans [OF sw4 post(7)]) simp
    with step run post cl keeps_trans [OF k4 post(3)] show ?thesis
      by (simp add: algebra_simps)
  qed
qed

section \<open>The admission wait\<close>

lemma fill_run:
  "\<not> ch_closed c \<Longrightarrow> i \<le> n \<Longrightarrow> ch_len c + (n - i) \<le> ch_cap c
   \<Longrightarrow> fill i n c = Inr (c\<lparr>ch_len := ch_len c + (n - i)\<rparr>)"
proof (induction i n c rule: fill.induct)
  case (1 i n c)
  show ?case
  proof (cases "i < n")
    case False
    with "1.prems" have "i = n" by simp
    then show ?thesis by (simp add: fill.simps [of n n c])
  next
    case True
    let ?c = "c\<lparr>ch_len := ch_len c + 1\<rparr>"
    from True "1.prems" have snd: "chan_send c = Inr ?c" by (simp add: chan_send_def)
    from "1.IH" [OF True snd] "1.prems" True
    have "fill (i + 1) n ?c = Inr (?c\<lparr>ch_len := ch_len ?c + (n - (i + 1))\<rparr>)" by simp
    with True snd show ?thesis by (simp add: fill.simps [of i n c])
  qed
qed

lemma lazyInit_run:
  assumes "chan_ok s" and "Wait s" and "0 < MaxActive s"
  shows "lazyInit s =
           Inr (s\<lparr>ch := Some \<lparr>ch_cap = MaxActive s,
                               ch_len = (if closed s \<and> ch s = None then 0 else tokens s),
                               ch_closed = closed s\<rparr>,
                  initOnce := True\<rparr>)"
proof (cases "ch s")
  case None
  with assms have "\<not> initOnce s" by (simp add: chan_ok_def)
  with None assms show ?thesis
    by (simp add: lazyInit_def chan_close_def fill_run tokens_def)
next
  case (Some c)
  with assms have "initOnce s" "ch_cap c = MaxActive s" "ch_closed c = closed s"
    by (simp_all add: chan_ok_def)
  with Some show ?thesis
    by (simp add: lazyInit_def tokens_def)
qed


lemma waitVacantConn_nonblocking:
  "\<not> Wait s \<or> MaxActive s \<le> 0 \<Longrightarrow> waitVacantConn e s = Inr (s, Inr 0)"
  by (simp add: waitVacantConn_def)

lemma tokens_nonneg: "chan_ok s \<Longrightarrow> 0 < MaxActive s \<Longrightarrow> 0 \<le> tokens s \<and> tokens s \<le> MaxActive s"
  by (auto simp: chan_ok_def tokens_def split: option.splits)

lemma waitVacantConn_open:
  assumes "chan_ok s" and "Wait s" and "0 < MaxActive s" and "\<not> closed s"
  shows "waitVacantConn e s =
    (if 0 < tokens s then
       (if (ctx_done_select e \<and> select_picks_ctx e) \<or> ctx_done_recheck e
        then Inr (s\<lparr>ch := Some \<lparr>ch_cap = MaxActive s, ch_len = tokens s, ch_closed = False\<rparr>,
                     initOnce := True\<rparr>, Inl (ErrContext (ctx_Err e)))
        else Inr (s\<lparr>ch := Some \<lparr>ch_cap = MaxActive s, ch_len = tokens s - 1, ch_closed = False\<rparr>,
                     initOnce := True\<rparr>, Inr 0))
     else if ctx_done_select e
       then Inr (s\<lparr>ch := Some \<lparr>ch_cap = MaxActive s, ch_len = tokens s, ch_closed = False\<rparr>,
                     initOnce := True, ticks := Suc (ticks s)\<rparr>, Inl (ErrContext (ctx_Err e)))
       else Inl BlocksForever)"
proof -
  from tokens_nonneg [OF assms(1,3)] have t: "0 \<le> tokens s" "tokens s \<le> MaxActive s" by simp_all
  show ?thesis
    using assms(2-4) t
    by (simp add: waitVacantConn_def lazyInit_run [OF assms(1-3)] chan_ready_def chan_recv_def
          send_token_def chan_send_def nowFunc_def Let_def)
qed

lemma waitVacantConn_shut:
  assumes "chan_ok s" and "Wait s" and "0 < MaxActive s" and "closed s"
    and "\<not> ctx_done_recheck e" and "\<not> (ctx_done_select e \<and> select_picks_ctx e)"
  obtains c t w where
    "waitVacantConn e s = Inr (s\<lparr>ch := Some c, initOnce := True, ticks := t\<rparr>, Inr w)"
    "ch_closed c"
proof -
  let ?n = "if ch s = None then 0 else tokens s"
  have li: "lazyInit s = Inr (s\<lparr>ch := Some \<lparr>ch_cap = MaxActive s, ch_len = ?n, ch_closed = True\<rparr>,
                  initOnce := True\<rparr>)"
    using lazyInit_run [OF assms(1-3)] assms(4) by simp
  show ?thesis
  proof (cases "0 < ?n")
    case True
    have "waitVacantConn e s =
        Inr (s\<lparr>ch := Some \<lparr>ch_cap = MaxActive s, ch_len = ?n - 1, ch_closed = True\<rparr>,
               initOnce := True, ticks := ticks s\<rparr>, Inr 0)"
      using assms(2-6) True
      by (simp add: waitVacantConn_def li chan_ready_def chan_recv_def Let_def)
    then show ?thesis by (rule that) simp
  next
    case False
    have "waitVacantConn e s =
        Inr (s\<lparr>ch := Some \<lparr>ch_cap = MaxActive s, ch_len = ?n, ch_closed = True\<rparr>,
               initOnce := True, ticks := Suc (Suc (ticks s))\<rparr>,
             Inr (clock e (Suc (ticks s)) - clock e (ticks s)))"
      using assms(2-6) False tokens_nonneg [OF assms(1,3)]
      by (simp add: waitVacantConn_def li chan_ready_def chan_recv_def Let_def nowFunc_def
            split: if_splits)
    then show ?thesis by (rule that) simp
  qed
qed

text \<open>Whatever the state, the wait touches the channel, \<open>initOnce\<close> and the clock only.\<close>

lemma lazyInit_frame:
  assumes "lazyInit s = Inr s1"
  shows "s1\<lparr>ch := X, initOnce := Y\<rparr> = s\<lparr>ch := X, initOnce := Y\<rparr>"
proof (cases "initOnce s")
  case True
  with assms show ?thesis by (simp add: lazyInit_def)
next
  case False
  with assms obtain c where "s1 = s\<lparr>ch := Some c, initOnce := True\<rparr>"
    by (auto simp: lazyInit_def Let_def and_then_def split: sum.splits)
  then show ?thesis by simp
qed

lemma send_token_frame: "send_token s = Inr s1 \<Longrightarrow> s1\<lparr>ch := X\<rparr> = s\<lparr>ch := X\<rparr>"
  by (auto simp: send_token_def and_then_def split: option.splits sum.splits)

lemma waitVacantConn_frame:
  assumes "waitVacantConn e s = Inr (s1, r)"
  shows "s1\<lparr>ch := X, initOnce := Y, ticks := Z\<rparr> = s\<lparr>ch := X, initOnce := Y, ticks := Z\<rparr>"
proof (cases "\<not> Wait s \<or> MaxActive s \<le> 0")
  case True
  with assms show ?thesis by (simp add: waitVacantConn_def)
next
  case False
  with assms obtain s0 where li: "lazyInit s = Inr s0"
    by (cases "lazyInit s") (auto simp: waitVacantConn_def)
  from lazyInit_frame [OF li, where X = X and Y = Y]
  have s0: "s0\<lparr>ch := X, initOnce := Y, ticks := Z\<rparr> = s\<lparr>ch := X, initOnce := Y, ticks := Z\<rparr>"
    by (rule arg_cong)
  define s2 where "s2 = (if (case ch s0 of None \<Rightarrow> 0 | Some c \<Rightarrow> ch_len c) = 0
                         then s0\<lparr>ticks := Suc (ticks s0)\<rparr> else s0)"
  have s2: "s2\<lparr>ch := X, ticks := Z\<rparr> = s0\<lparr>ch := X, ticks := Z\<rparr>" by (simp add: s2_def)
  have "s1\<lparr>ch := X, ticks := Z\<rparr> = s2\<lparr>ch := X, ticks := Z\<rparr>"
  proof (cases "ch s2")
    case None
    with assms False li show ?thesis
      by (auto simp: waitVacantConn_def Let_def nowFunc_def s2_def split: if_splits prod.splits)
  next
    case (Some c)
    show ?thesis
    proof (cases "chan_recv c")
      case (Inl x)
      with Some assms False li show ?thesis
        by (auto simp: waitVacantConn_def Let_def nowFunc_def s2_def split: if_splits prod.splits)
    next
      case (Inr c')
      show ?thesis
      proof (cases "send_token (s2\<lparr>ch := Some c'\<rparr>)")
        case (Inl x)
        with Inr Some assms False li show ?thesis
          by (auto simp: waitVacantConn_def Let_def nowFunc_def s2_def split: if_splits prod.splits)
      next
        case snd: (Inr s4)
        from send_token_frame [OF snd, where X = X] have "s4\<lparr>ch := X\<rparr> = s2\<lparr>ch := X\<rparr>" by simp
        then have "s4\<lparr>ch := X, ticks := Z\<rparr> = s2\<lparr>ch := X, ticks := Z\<rparr>"
          by (rule arg_cong)
        with snd Inr Some assms False li show ?thesis
          by (auto simp: waitVacantConn_def Let_def nowFunc_def s2_def split: if_splits prod.splits)
      qed
    qed
  qed
  with s2 have "s1\<lparr>ch := X, ticks := Z\<rparr> = s0\<lparr>ch := X, ticks := Z\<rparr>" by simp
  then have "(\<lambda>w. w\<lparr>initOnce := Y\<rparr>) (s1\<lparr>ch := X, ticks := Z\<rparr>)
               = (\<lambda>w. w\<lparr>initOnce := Y\<rparr>) (s0\<lparr>ch := X, ticks := Z\<rparr>)"
    by (rule arg_cong)
  then have "s1\<lparr>ch := X, initOnce := Y, ticks := Z\<rparr> = s0\<lparr>ch := X, initOnce := Y, ticks := Z\<rparr>"
    by (cases s1; cases s0) simp
  from this s0 show ?thesis by (rule trans)
qed


lemma waitVacantConn_fields:
  assumes "waitVacantConn e s = Inr (s1, r)"
  shows "idle s1 = idle s" "heap s1 = heap s" "mu s1 = mu s" "active s1 = active s"
    "closes s1 = closes s" "seen s1 = seen s" "closed s1 = closed s" "nalloc s1 = nalloc s"
    "locked_io s1 = locked_io s"
    "waitCount s1 = waitCount s" "waitDuration s1 = waitDuration s"
    "MaxIdle s1 = MaxIdle s" "MaxActive s1 = MaxActive s" "IdleTimeout s1 = IdleTimeout s"
    "Wait s1 = Wait s" "MaxConnLifetime s1 = MaxConnLifetime s" "InitActive s1 = InitActive s"
proof -
  let ?u = "\<lambda>w::world. w\<lparr>ch := None, initOnce := False, ticks := 0\<rparr>"
  have eq: "?u s1 = ?u s" by (rule waitVacantConn_frame [OF assms])
  have "idle (?u s1) = idle (?u s)" "heap (?u s1) = heap (?u s)" "mu (?u s1) = mu (?u s)"
    "active (?u s1) = active (?u s)" "closes (?u s1) = closes (?u s)" "seen (?u s1) = seen (?u s)"
    "closed (?u s1) = closed (?u s)" "nalloc (?u s1) = nalloc (?u s)"
    "locked_io (?u s1) = locked_io (?u s)"
    "waitCount (?u s1) = waitCount (?u s)" "waitDuration (?u s1) = waitDuration (?u s)"
    "MaxIdle (?u s1) = MaxIdle (?u s)" "MaxActive (?u s1) = MaxActive (?u s)"
    "IdleTimeout (?u s1) = IdleTimeout (?u s)" "Wait (?u s1) = Wait (?u s)"
    "MaxConnLifetime (?u s1) = MaxConnLifetime (?u s)" "InitActive (?u s1) = InitActive (?u s)"
    by (simp_all only: eq)
  then show "idle s1 = idle s" "heap s1 = heap s" "mu s1 = mu s" "active s1 = active s"
    "closes s1 = closes s" "seen s1 = seen s" "closed s1 = closed s" "nalloc s1 = nalloc s"
    "locked_io s1 = locked_io s"
    "waitCount s1 = waitCount s" "waitDuration s1 = waitDuration s"
    "MaxIdle s1 = MaxIdle s" "MaxActive s1 = MaxActive s" "IdleTimeout s1 = IdleTimeout s"
    "Wait s1 = Wait s" "MaxConnLifetime s1 = MaxConnLifetime s" "InitActive s1 = InitActive s"
    by simp_all
qed

section \<open>Acquire as a whole\<close>

lemma first_usable_split:
  "first_usable e ml h k xs = (cl, r, k') \<Longrightarrow>
     k \<le> k' \<and> cl = take (length cl) xs
     \<and> (case r of
           None \<Rightarrow> cl = xs
         | Some pc \<Rightarrow> length cl < length xs \<and> pc = xs ! length cl
             \<and> TestOnBorrow e (page (h pc))
             \<and> (ml = 0 \<or> (0 < k' \<and> clock e (k' - 1) - created (h pc) < ml)))"
proof (induction xs arbitrary: k cl)
  case Nil
  then show ?case by auto
next
  case (Cons x xs)
  then show ?case
    by (fastforce split: if_splits prod.splits option.splits)
qed

lemma dial_closed:
  "mu s \<Longrightarrow> closed s \<Longrightarrow>
   dial e s = Inr (s\<lparr>mu := False, seen := seen s @ [(active s, count (idle s))]\<rparr>,
                   Inl ErrGetOnClosedPool)"
  by (simp add: dial_def unlock_def)

lemma dial_exhausted:
  "mu s \<Longrightarrow> \<not> closed s \<Longrightarrow> \<not> Wait s \<Longrightarrow> 0 < MaxActive s \<Longrightarrow> MaxActive s \<le> active s \<Longrightarrow>
   dial e s = Inr (s\<lparr>mu := False, seen := seen s @ [(active s, count (idle s))]\<rparr>,
                   Inl ErrPoolExhausted)"
  by (simp add: dial_def unlock_def)

lemma dial_created:
  "mu s \<Longrightarrow> \<not> closed s \<Longrightarrow> Wait s \<or> MaxActive s \<le> 0 \<or> active s < MaxActive s \<Longrightarrow>
   newPage e (nalloc s) = Inr pg \<Longrightarrow>
   dial e s =
     Inr (s\<lparr>active := active s + 1, mu := False,
            seen := seen s @ [(active s + 1, count (idle s))], ticks := Suc (ticks s),
            heap := (heap s)(nalloc s := \<lparr>page = Some pg, t_put = 0, created = clock e (ticks s),
                                         next_pc = None, prev_pc = None\<rparr>),
            nalloc := Suc (nalloc s)\<rparr>, Inr (nalloc s))"
  by (auto simp: dial_def unlock_def newConn_def nowFunc_def Let_def)

lemma dial_failed_nochan:
  "mu s \<Longrightarrow> \<not> closed s \<Longrightarrow> Wait s \<or> MaxActive s \<le> 0 \<or> active s < MaxActive s \<Longrightarrow>
   newPage e (nalloc s) = Inl code \<Longrightarrow> ch s = None \<Longrightarrow>
   dial e s =
     Inr (s\<lparr>mu := False,
            seen := seen s @ [(active s + 1, count (idle s)), (active s, count (idle s))]\<rparr>,
          Inl (ErrNewPage code))"
  by (auto simp: dial_def unlock_def newConn_def lock_def)

lemma dial_failed_chan:
  "mu s \<Longrightarrow> \<not> closed s \<Longrightarrow> Wait s \<or> MaxActive s \<le> 0 \<or> active s < MaxActive s \<Longrightarrow>
   newPage e (nalloc s) = Inl code \<Longrightarrow> ch s = Some c \<Longrightarrow> \<not> ch_closed c \<Longrightarrow> ch_len c < ch_cap c \<Longrightarrow>
   dial e s =
     Inr (s\<lparr>ch := Some (c\<lparr>ch_len := ch_len c + 1\<rparr>), mu := False,
            seen := seen s @ [(active s + 1, count (idle s)), (active s, count (idle s))]\<rparr>,
          Inl (ErrNewPage code))"
  by (auto simp: dial_def unlock_def newConn_def lock_def send_token_def chan_send_def)

lemma keeps_fields:
  assumes "keeps s s'"
  shows "InitActive s' = InitActive s" "MaxIdle s' = MaxIdle s" "MaxActive s' = MaxActive s"
    "IdleTimeout s' = IdleTimeout s" "Wait s' = Wait s" "MaxConnLifetime s' = MaxConnLifetime s"
    "closed s' = closed s" "initOnce s' = initOnce s" "ch s' = ch s" "waitCount s' = waitCount s"
    "waitDuration s' = waitDuration s" "nalloc s' = nalloc s" "same_data (heap s) (heap s')"
    "locked_io s' = locked_io s"
  using assms by (simp_all add: keeps_def)

lemma GetWithCtx_run:
  assumes idl: "is_idle (idle s) (heap s) xs" and mu: "\<not> mu s"
    and w: "waitVacantConn e s = Inr (s1, Inr waited)"
  shows "\<exists>s5 rm cl r k.
      GetWithCtx e s = (case r of Some pc \<Rightarrow> Some (Inr (s5, Inr pc)) | None \<Rightarrow> Some (dial e s5))
    \<and> rm = pruned e s1 xs
    \<and> first_usable e (MaxConnLifetime s) (heap s) k (take (length xs - length rm) xs)
         = (cl, r, ticks s5)
    \<and> ticks s1 \<le> k
    \<and> is_idle (idle s5) (heap s5)
         (drop (length cl + (if r = None then 0 else 1)) (take (length xs - length rm) xs))
    \<and> mu s5 = (r = None)
    \<and> closes s5 = closes s @ rm @ cl
    \<and> active s5 = active s - int (length rm) - int (length cl)
    \<and> seen_within (int (length xs)) s s5
    \<and> keeps (s1\<lparr>waitCount := waitCount s + (if 0 < waited then 1 else 0),
                 waitDuration := waitDuration s + (if 0 < waited then waited else 0)\<rparr>) s5"
proof -
  note f = waitVacantConn_fields [OF w]
  let ?s2 = "s1\<lparr>mu := True\<rparr>"
  let ?s3 = "s1\<lparr>mu := True, waitCount := waitCount s1 + (if 0 < waited then 1 else 0),
                 waitDuration := waitDuration s1 + (if 0 < waited then waited else 0)\<rparr>"
  have eq3: "(if 0 < waited
              then ?s2\<lparr>waitCount := waitCount ?s2 + 1,
                       waitDuration := waitDuration ?s2 + waited\<rparr>
              else ?s2) = ?s3"
    by simp
  let ?sw = "s1\<lparr>waitCount := waitCount s + (if 0 < waited then 1 else 0),
                 waitDuration := waitDuration s + (if 0 < waited then waited else 0)\<rparr>"
  have lk: "lock s1 = Inr ?s2" using mu f by (simp add: lock_def)
  have idl3: "is_idle (idle ?s3) (heap ?s3) xs" using idl f by simp
  have mu3: "mu ?s3" by simp
  define rm where "rm = pruned e ?s3 xs"
  have rm1: "rm = pruned e s1 xs" by (simp add: rm_def pruned_def)
  from prune_stale_run [OF idl3 mu3 rm_def] obtain s4 where
    all4: "prune_stale e ?s3 = Inr (s4, int (length rm))
      \<and> is_idle (idle s4) (heap s4) (take (length xs - length rm) xs) \<and> mu s4 \<and> keeps ?s3 s4
      \<and> closes s4 = closes ?s3 @ rm \<and> active s4 = active ?s3 - int (length rm)
      \<and> seen_within (int (length xs)) ?s3 s4 \<and> ticks ?s3 \<le> ticks s4" ..
  from all4 have
    pr: "prune_stale e ?s3 = Inr (s4, int (length rm))" and
    p4: "is_idle (idle s4) (heap s4) (take (length xs - length rm) xs)" "mu s4" "keeps ?s3 s4"
      "closes s4 = closes ?s3 @ rm" "active s4 = active ?s3 - int (length rm)"
      "seen_within (int (length xs)) ?s3 s4" "ticks ?s3 \<le> ticks s4"
    by (simp_all only:)
  let ?xs' = "take (length xs - length rm) xs"
  obtain cl r k' where fu: "first_usable e (MaxConnLifetime s4) (heap s4) (ticks s4) ?xs' = (cl, r, k')"
    by (cases "first_usable e (MaxConnLifetime s4) (heap s4) (ticks s4) ?xs'") auto
  from reuse_run [OF p4(1,2) fu] obtain s5 where
    all5: "reuse e s4 = Some (Inr (s5, r))
      \<and> is_idle (idle s5) (heap s5) (drop (length cl + (if r = None then 0 else 1)) ?xs')
      \<and> mu s5 = (r = None) \<and> keeps s4 s5 \<and> closes s5 = closes s4 @ cl
      \<and> active s5 = active s4 - int (length cl) \<and> ticks s5 = k'
      \<and> seen_within (int (length ?xs')) s4 s5" ..
  from all5 have
    ru: "reuse e s4 = Some (Inr (s5, r))" and
    p5: "is_idle (idle s5) (heap s5) (drop (length cl + (if r = None then 0 else 1)) ?xs')"
      "mu s5 = (r = None)" "keeps s4 s5" "closes s5 = closes s4 @ cl"
      "active s5 = active s4 - int (length cl)" "ticks s5 = k'"
      "seen_within (int (length ?xs')) s4 s5"
    by (simp_all only:)
  have k3: "keeps ?sw ?s3" using f by (simp add: keeps_def)
  have k35: "keeps ?sw s5" by (rule keeps_trans [OF k3 keeps_trans [OF p4(3) p5(3)]])
  have sd4: "same_data (heap s) (heap s4)" using keeps_fields(13) [OF p4(3)] f by simp
  have ml4: "MaxConnLifetime s4 = MaxConnLifetime s" using keeps_fields(6) [OF p4(3)] f by simp
  have fu': "first_usable e (MaxConnLifetime s) (heap s) (ticks s4) ?xs' = (cl, r, ticks s5)"
    using fu p5(6) by (simp add: ml4 first_usable_same_data [OF sd4])
  have sw: "seen_within (int (length xs)) s s5"
  proof -
    have "seen_within (int (length xs)) ?s3 s5"
      by (rule seen_within_trans [OF p4(6) p5(7)]) simp
    moreover have "seen ?s3 = seen s" using f by simp
    ultimately show ?thesis by (simp add: seen_within_def)
  qed
  have run: "GetWithCtx e s =
      (case r of Some pc \<Rightarrow> Some (Inr (s5, Inr pc)) | None \<Rightarrow> Some (dial e s5))"
    unfolding GetWithCtx_def w
    by (simp only: sum.case prod.case lk Let_def eq3 pr ru option.case)
  have cl5: "closes s5 = closes s @ rm @ cl" using p4(4) p5(4) f by simp
  have ac5: "active s5 = active s - int (length rm) - int (length cl)"
    using p4(5) p5(5) f by simp
  have tk: "ticks s1 \<le> ticks s4" using p4(7) by simp
  show ?thesis
    apply (rule exI [where x = s5])
    apply (rule exI [where x = rm])
    apply (rule exI [where x = cl])
    apply (rule exI [where x = r])
    apply (rule exI [where x = "ticks s4"])
    apply (intro conjI)
    apply (rule run)
    apply (rule rm1)
    apply (rule fu')
    apply (rule tk)
    apply (rule p5(1))
    apply (rule p5(2))
    apply (rule cl5)
    apply (rule ac5)
    apply (rule sw)
    using k35 f apply simp
    done
qed

section \<open>Release and Close\<close>

lemma is_idle_heap_data:
  "is_idle l h xs \<Longrightarrow> is_idle l (h(a := (h a)\<lparr>t_put := v\<rparr>)) xs"
proof -
  assume a: "is_idle l h xs"
  have "seg (h(a := (h a)\<lparr>t_put := v\<rparr>)) None xs None = seg h None xs None"
    by (rule seg_frame) simp
  with a show ?thesis by (simp add: is_idle_def)
qed

lemma put_idle_run:
  assumes idl: "is_idle (idle s) (heap s) xs" and new: "pc \<notin> set xs" and "\<not> closed s"
  shows "\<exists>l' h'.
      put_idle e pc False s =
        Inr (s\<lparr>idle := l', heap := h', ticks := Suc (ticks s)\<rparr>,
             if MaxIdle s < int (length xs) + 1 then Some (last (pc # xs)) else None)
    \<and> is_idle l' h' (if MaxIdle s < int (length xs) + 1 then butlast (pc # xs) else pc # xs)
    \<and> same_data ((heap s)(pc := (heap s pc)\<lparr>t_put := clock e (ticks s)\<rparr>)) h'"
    (is "\<exists>l' h'. ?P l' h'")
proof -
  let ?h = "(heap s)(pc := (heap s pc)\<lparr>t_put := clock e (ticks s)\<rparr>)"
  let ?s2 = "s\<lparr>ticks := Suc (ticks s), heap := ?h\<rparr>"
  have idl2: "is_idle (idle ?s2) (heap ?s2) xs"
    using is_idle_heap_data [OF idl] by simp
  from idle_pushFront_run [OF idl2 new] obtain l3 h3 where
    push: "idle_pushFront pc ?s2 = Inr (?s2\<lparr>idle := l3, heap := h3\<rparr>)" and
    idl3: "is_idle l3 h3 (pc # xs)" and sd3: "same_data ?h h3"
    by auto
  let ?s3 = "?s2\<lparr>idle := l3, heap := h3\<rparr>"
  have c3: "count l3 = int (length xs) + 1" using idl3 by (simp add: is_idle_def)
  have bk3: "back_pc l3 = Some (last (pc # xs))" using idl3 by (simp add: is_idle_def last_of_def)
  show ?thesis
  proof (cases "MaxIdle s < int (length xs) + 1")
    case False
    have "put_idle e pc False s = Inr (s\<lparr>idle := l3, heap := h3, ticks := Suc (ticks s)\<rparr>, None)"
      using assms(3) push False c3 by (simp add: put_idle_def nowFunc_def Let_def)
    with idl3 sd3 False have "?P l3 h3" by simp
    then show ?thesis by blast
  next
    case True
    have "pc # xs = butlast (pc # xs) @ [last (pc # xs)]" by simp
    with idl3 have "is_idle (idle ?s3) (heap ?s3) (butlast (pc # xs) @ [last (pc # xs)])"
      by simp
    from idle_popBack_run [OF this] obtain l4 h4 where
      pop: "idle_popBack ?s3 = Inr (?s3\<lparr>idle := l4, heap := h4\<rparr>)" and
      idl4: "is_idle l4 h4 (butlast (pc # xs))" and sd4: "same_data h3 h4"
      by auto
    have "put_idle e pc False s =
            Inr (s\<lparr>idle := l4, heap := h4, ticks := Suc (ticks s)\<rparr>, Some (last (pc # xs)))"
      using assms(3) push pop True c3 bk3 by (simp add: put_idle_def nowFunc_def Let_def)
    with idl4 same_data_trans [OF sd3 sd4] True have "?P l4 h4" by simp
    then show ?thesis by blast
  qed
qed

lemma put_run:
  assumes idl: "is_idle (idle s) (heap s) xs" and new: "pc \<notin> set xs" and op: "\<not> closed s"
    and mu: "\<not> mu s"
    and room: "case ch s of None \<Rightarrow> True | Some c \<Rightarrow> \<not> ch_closed c \<and> ch_len c < ch_cap c"
  shows "\<exists>l' h'.
      put e pc False s =
        Inr (s\<lparr>idle := l', heap := h', ticks := Suc (ticks s), mu := False,
               ch := map_option (\<lambda>c. c\<lparr>ch_len := ch_len c + 1\<rparr>) (ch s),
               closes := closes s @ (if MaxIdle s < int (length xs) + 1 then [last (pc # xs)] else []),
               active := active s - (if MaxIdle s < int (length xs) + 1 then 1 else 0),
               seen := seen s @
                 (if MaxIdle s < int (length xs) + 1
                  then [(active s, int (length xs)), (active s - 1, int (length xs))]
                  else [(active s, int (length xs) + 1)])\<rparr>)
    \<and> is_idle l' h' (if MaxIdle s < int (length xs) + 1 then butlast (pc # xs) else pc # xs)
    \<and> same_data ((heap s)(pc := (heap s pc)\<lparr>t_put := clock e (ticks s)\<rparr>)) h'"
    (is "\<exists>l' h'. ?P l' h'")
proof -
  let ?s1 = "s\<lparr>mu := True\<rparr>"
  have lk: "lock s = Inr ?s1" using mu by (simp add: lock_def)
  have idl1: "is_idle (idle ?s1) (heap ?s1) xs" using idl by simp
  have op1: "\<not> closed ?s1" using op by simp
  from put_idle_run [OF idl1 new op1, of e] obtain l' h' where
    pi: "put_idle e pc False ?s1 =
        Inr (?s1\<lparr>idle := l', heap := h', ticks := Suc (ticks ?s1)\<rparr>,
             if MaxIdle ?s1 < int (length xs) + 1 then Some (last (pc # xs)) else None)" and
    idl': "is_idle l' h' (if MaxIdle ?s1 < int (length xs) + 1 then butlast (pc # xs) else pc # xs)" and
    sd: "same_data ((heap ?s1)(pc := (heap ?s1 pc)\<lparr>t_put := clock e (ticks ?s1)\<rparr>)) h'"
    by blast
  have cnt: "count l' = (if MaxIdle s < int (length xs) + 1 then int (length xs) else int (length xs) + 1)"
    using idl' by (auto simp: is_idle_def)
  have "put e pc False s =
        Inr (s\<lparr>idle := l', heap := h', ticks := Suc (ticks s), mu := False,
               ch := map_option (\<lambda>c. c\<lparr>ch_len := ch_len c + 1\<rparr>) (ch s),
               closes := closes s @ (if MaxIdle s < int (length xs) + 1 then [last (pc # xs)] else []),
               active := active s - (if MaxIdle s < int (length xs) + 1 then 1 else 0),
               seen := seen s @
                 (if MaxIdle s < int (length xs) + 1
                  then [(active s, int (length xs)), (active s - 1, int (length xs))]
                  else [(active s, int (length xs) + 1)])\<rparr>)"
  proof (cases "ch s")
    case None
    then show ?thesis
      using op cnt mu
      by (simp add: put_def lk pi unlock_def lock_def page_Close_def)
  next
    case (Some c)
    with room have "\<not> ch_closed c" "ch_len c < ch_cap c" by simp_all
    with Some show ?thesis
      using op cnt mu
      by (simp add: put_def lk pi unlock_def lock_def page_Close_def send_token_def chan_send_def)
  qed
  with idl' sd have "?P l' h'" by simp
  then show ?thesis by blast
qed

lemma close_chain_run:
  "seg (heap s) p xs None \<Longrightarrow> \<not> mu s \<Longrightarrow>
   close_chain (first_of xs) s = Some (s\<lparr>closes := closes s @ xs\<rparr>)"
proof (induction xs arbitrary: s p)
  case Nil
  then show ?case by (simp add: close_chain.simps first_of_def)
next
  case (Cons x xs)
  from Cons.prems have nx: "next_pc (heap s x) = first_of xs" and
    sg: "seg (heap (page_Close x s)) (Some x) xs None" and m: "\<not> mu (page_Close x s)"
    by (simp_all add: first_of_def page_Close_def)
  from Cons.IH [OF sg m] nx Cons.prems(2) show ?case
    by (simp add: close_chain.simps [of "Some x" s] first_of_def page_Close_def)
qed

lemma Close_run:
  assumes idl: "is_idle (idle s) (heap s) xs" and mu: "\<not> mu s" and op: "\<not> closed s"
    and ok: "chan_ok s"
  shows "Close s =
     Some (Inr (s\<lparr>closed := True, active := active s - int (length xs),
                  idle := (idle s)\<lparr>count := 0, front := None, back_pc := None\<rparr>,
                  ch := map_option (\<lambda>c. c\<lparr>ch_closed := True\<rparr>) (ch s), mu := False,
                  seen := seen s @ [(active s - int (length xs), 0)],
                  closes := closes s @ xs\<rparr>))"
proof -
  have lk: "lock s = Inr (s\<lparr>mu := True\<rparr>)" using mu by (simp add: lock_def)
  have fr: "front (idle s) = first_of xs" and cn: "count (idle s) = int (length xs)"
    and sg: "seg (heap s) None xs None"
    using idl by (simp_all add: is_idle_def)
  have cc: "close_chain (first_of xs) t = Some (t\<lparr>closes := closes t @ xs\<rparr>)"
    if "heap t = heap s" and "\<not> mu t" for t
    using close_chain_run [of t None xs] sg that by simp
  show ?thesis
  proof (cases "ch s")
    case None
    then show ?thesis
      using op fr cn by (simp add: Close_def lk unlock_def Let_def cc)
  next
    case (Some c)
    with ok op have "\<not> ch_closed c" by (simp add: chan_ok_def)
    with Some show ?thesis
      using op fr cn by (simp add: Close_def lk unlock_def Let_def cc chan_close_def)
  qed
qed

lemma Close_again:
  assumes "closed s" and "\<not> mu s"
  shows "Close s = Some (Inr (s\<lparr>seen := seen s @ [(active s, count (idle s))]\<rparr>))"
proof -
  from assms(2) have "s\<lparr>mu := False\<rparr> = s" by (cases s) simp
  then have "s\<lparr>mu := False, seen := seen s @ [(active s, count (idle s))]\<rparr>
               = s\<lparr>seen := seen s @ [(active s, count (idle s))]\<rparr>"
    by simp
  with assms show ?thesis by (simp add: Close_def lock_def unlock_def)
qed

section \<open>Outcomes of Release and of Acquire\<close>

lemma pool_ok_fields:
  assumes "pool_ok s xs"
  shows "is_idle (idle s) (heap s) xs" "\<not> mu s" "chan_ok s"
    "list_all (\<lambda>a. a < nalloc s \<and> page (heap s a) \<noteq> None) xs" "count (idle s) = int (length xs)"
    "distinct xs"
  using assms by (simp_all add: pool_ok_def is_idle_def)

lemma put_post:
  assumes ok: "pool_ok s xs" and new: "pc \<notin> set xs" and al: "pc < nalloc s"
    and pg: "page (heap s pc) \<noteq> None" and op: "\<not> closed s"
    and room: "case ch s of None \<Rightarrow> True | Some c \<Rightarrow> ch_len c < ch_cap c"
  shows "\<exists>s'. put e pc False s = Inr s'
    \<and> pool_ok s' (if MaxIdle s < int (length xs) + 1 then butlast (pc # xs) else pc # xs)
    \<and> closes s' = closes s @ (if MaxIdle s < int (length xs) + 1 then [last (pc # xs)] else [])
    \<and> active s' = active s - (if MaxIdle s < int (length xs) + 1 then 1 else 0)
    \<and> seen_within (max (MaxIdle s) (int (length xs))) s s'
    \<and> locked_io s' = locked_io s \<and> closed s' = closed s \<and> MaxIdle s' = MaxIdle s
    \<and> MaxActive s' = MaxActive s \<and> Wait s' = Wait s \<and> nalloc s' = nalloc s
    \<and> waitCount s' = waitCount s \<and> waitDuration s' = waitDuration s
    \<and> tokens s' = (if ch s = None then tokens s else tokens s + 1)"
proof -
  note f = pool_ok_fields [OF ok]
  have room': "case ch s of None \<Rightarrow> True | Some c \<Rightarrow> \<not> ch_closed c \<and> ch_len c < ch_cap c"
    using room f(3) op by (auto simp: chan_ok_def split: option.splits)
  let ?over = "MaxIdle s < int (length xs) + 1"
  let ?ys = "if ?over then butlast (pc # xs) else pc # xs"
  let ?h0 = "(heap s)(pc := (heap s pc)\<lparr>t_put := clock e (ticks s)\<rparr>)"
  from put_run [OF f(1) new op f(2) room', of e] obtain l' h' where
    run: "put e pc False s =
        Inr (s\<lparr>idle := l', heap := h', ticks := Suc (ticks s), mu := False,
               ch := map_option (\<lambda>c. c\<lparr>ch_len := ch_len c + 1\<rparr>) (ch s),
               closes := closes s @ (if ?over then [last (pc # xs)] else []),
               active := active s - (if ?over then 1 else 0),
               seen := seen s @
                 (if ?over
                  then [(active s, int (length xs)), (active s - 1, int (length xs))]
                  else [(active s, int (length xs) + 1)])\<rparr>)" and
    idl': "is_idle l' h' ?ys" and sd: "same_data ?h0 h'"
    by blast
  let ?s' = "s\<lparr>idle := l', heap := h', ticks := Suc (ticks s), mu := False,
               ch := map_option (\<lambda>c. c\<lparr>ch_len := ch_len c + 1\<rparr>) (ch s),
               closes := closes s @ (if ?over then [last (pc # xs)] else []),
               active := active s - (if ?over then 1 else 0),
               seen := seen s @
                 (if ?over
                  then [(active s, int (length xs)), (active s - 1, int (length xs))]
                  else [(active s, int (length xs) + 1)])\<rparr>"
  have pgs: "page (h' a) = page (heap s a)" for a
    using same_data_page [OF sd, of a] by simp
  have sub: "set ?ys \<subseteq> insert pc (set xs)"
    by (auto dest: in_set_butlastD)
  have la: "list_all (\<lambda>a. a < nalloc ?s' \<and> page (heap ?s' a) \<noteq> None) ?ys"
  proof -
    have "\<forall>a \<in> insert pc (set xs). a < nalloc s \<and> page (heap s a) \<noteq> None"
      using f(4) al pg by (auto simp: list_all_iff)
    with sub have "\<forall>a \<in> set ?ys. a < nalloc s \<and> page (heap s a) \<noteq> None" by blast
    then show ?thesis by (simp add: list_all_iff pgs)
  qed
  have ck: "chan_ok ?s'"
    using f(3) room by (auto simp: chan_ok_def split: option.splits)
  have ok': "pool_ok ?s' ?ys"
    using idl' la ck by (simp add: pool_ok_def)
  have sw: "seen_within (max (MaxIdle s) (int (length xs))) s ?s'"
    by (rule seen_within_app [where new = "if ?over
                  then [(active s, int (length xs)), (active s - 1, int (length xs))]
                  else [(active s, int (length xs) + 1)]"]) auto
  have tk: "tokens ?s' = (if ch s = None then tokens s else tokens s + 1)"
    by (auto simp: tokens_def)
  show ?thesis
    by (intro exI [where x = ?s'] conjI run ok' sw tk) simp_all
qed


lemma dial_cases:
  assumes m: "mu s" and run: "dial e s = Inr (s', res)"
  shows
   "(closed s \<and> res = Inl ErrGetOnClosedPool
       \<and> s' = s\<lparr>mu := False, seen := seen s @ [(active s, count (idle s))]\<rparr>)
    \<or> (\<not> closed s \<and> \<not> Wait s \<and> 0 < MaxActive s \<and> MaxActive s \<le> active s
       \<and> res = Inl ErrPoolExhausted
       \<and> s' = s\<lparr>mu := False, seen := seen s @ [(active s, count (idle s))]\<rparr>)
    \<or> (\<not> closed s \<and> res = Inr (nalloc s)
       \<and> (\<exists>pg. s' = s\<lparr>active := active s + 1, mu := False,
            seen := seen s @ [(active s + 1, count (idle s))], ticks := Suc (ticks s),
            heap := (heap s)(nalloc s := \<lparr>page = Some pg, t_put = 0, created = clock e (ticks s),
                                         next_pc = None, prev_pc = None\<rparr>),
            nalloc := Suc (nalloc s)\<rparr>))
    \<or> (\<not> closed s
       \<and> (case ch s of None \<Rightarrow> True | Some c \<Rightarrow> \<not> ch_closed c \<and> ch_len c < ch_cap c)
       \<and> (\<exists>code. res = Inl (ErrNewPage code))
       \<and> s' = s\<lparr>ch := map_option (\<lambda>c. c\<lparr>ch_len := ch_len c + 1\<rparr>) (ch s), mu := False,
            seen := seen s @ [(active s + 1, count (idle s)), (active s, count (idle s))]\<rparr>)"
proof (cases "closed s")
  case True
  with run dial_closed [OF m True, of e] show ?thesis by simp
next
  case op: False
  show ?thesis
  proof (cases "\<not> Wait s \<and> 0 < MaxActive s \<and> MaxActive s \<le> active s")
    case True
    with run op dial_exhausted [OF m op, of e] show ?thesis by simp
  next
    case False
    then have go: "Wait s \<or> MaxActive s \<le> 0 \<or> active s < MaxActive s" by auto
    show ?thesis
    proof (cases "newPage e (nalloc s)")
      case (Inr pg)
      from run dial_created [OF m op go Inr] op show ?thesis by auto
    next
      case (Inl code)
      show ?thesis
      proof (cases "ch s")
        case None
        from run dial_failed_nochan [OF m op go Inl None] op None show ?thesis by auto
      next
        case (Some c)
        show ?thesis
        proof (cases "\<not> ch_closed c \<and> ch_len c < ch_cap c")
          case True
          then have a: "\<not> ch_closed c" and b: "ch_len c < ch_cap c" by simp_all
          from run dial_failed_chan [OF m op go Inl Some a b] op Some True show ?thesis by auto
        next
          case False
          with m op go Inl Some have "\<exists>x. dial e s = Inl x"
            by (auto simp: dial_def unlock_def newConn_def lock_def send_token_def chan_send_def)
          with run show ?thesis by auto
        qed
      qed
    qed
  qed
qed

lemma wait_Inr:
  assumes ok: "chan_ok s" and op: "\<not> closed s" and w: "waitVacantConn e s = Inr (s1, Inr waited)"
  shows "chan_ok s1" "waited = 0"
    "tokens s1 = tokens s - (if Wait s \<and> 0 < MaxActive s then 1 else 0)"
    "(ch s1 = None) = (\<not> (Wait s \<and> 0 < MaxActive s))"
    "case ch s1 of None \<Rightarrow> True | Some c \<Rightarrow> ch_len c < ch_cap c"
proof -
  have "chan_ok s1 \<and> waited = 0
    \<and> tokens s1 = tokens s - (if Wait s \<and> 0 < MaxActive s then 1 else 0)
    \<and> (ch s1 = None) = (\<not> (Wait s \<and> 0 < MaxActive s))
    \<and> (case ch s1 of None \<Rightarrow> True | Some c \<Rightarrow> ch_len c < ch_cap c)"
  proof (cases "Wait s \<and> 0 < MaxActive s")
    case False
    with w have "s1 = s" "waited = 0" by (auto simp: waitVacantConn_def)
    moreover from False ok have "ch s = None" by (auto simp: chan_ok_def split: option.splits)
    ultimately show ?thesis using ok False by simp
  next
    case True
    then have b: "Wait s" "0 < MaxActive s" by simp_all
    from tokens_nonneg [OF ok b(2)] have t: "0 \<le> tokens s" "tokens s \<le> MaxActive s" by simp_all
    from w waitVacantConn_open [OF ok b op, of e]
    have "0 < tokens s \<and> waited = 0 \<and>
          s1 = s\<lparr>ch := Some \<lparr>ch_cap = MaxActive s, ch_len = tokens s - 1, ch_closed = False\<rparr>,
                 initOnce := True\<rparr>"
      by (auto split: if_splits)
    with t b op show ?thesis by (simp add: chan_ok_def tokens_def)
  qed
  then show "chan_ok s1" "waited = 0"
    "tokens s1 = tokens s - (if Wait s \<and> 0 < MaxActive s then 1 else 0)"
    "(ch s1 = None) = (\<not> (Wait s \<and> 0 < MaxActive s))"
    "case ch s1 of None \<Rightarrow> True | Some c \<Rightarrow> ch_len c < ch_cap c"
    by simp_all
qed

lemma chan_ok_keeps: "chan_ok s \<Longrightarrow> keeps s s' \<Longrightarrow> chan_ok s'"
  by (auto simp: chan_ok_def keeps_def split: option.splits)

lemma nth_notin_drop: "distinct zs \<Longrightarrow> i < length zs \<Longrightarrow> zs ! i \<notin> set (drop (Suc i) zs)"
  by (metis Cons_nth_drop_Suc append_take_drop_id distinct.simps(2) distinct_append)

lemma GetWithCtx_wait_error:
  "waitVacantConn e s = Inr (s1, Inl err) \<Longrightarrow> GetWithCtx e s = Some (Inr (s1, Inl err))"
  by (simp add: GetWithCtx_def)

lemma GetWithCtx_wait_fault:
  "waitVacantConn e s = Inl x \<Longrightarrow> GetWithCtx e s = Some (Inl x)"
  by (simp add: GetWithCtx_def)

lemma chan_ok_cong:
  "ch s' = ch s \<Longrightarrow> initOnce s' = initOnce s \<Longrightarrow> Wait s' = Wait s \<Longrightarrow>
   MaxActive s' = MaxActive s \<Longrightarrow> closed s' = closed s \<Longrightarrow> chan_ok s' = chan_ok s"
  by (simp add: chan_ok_def split: option.splits)

lemma GetWithCtx_Inr:
  assumes ok: "pool_ok s xs" and op: "\<not> closed s"
    and run: "GetWithCtx e s = Some (Inr (s', Inr h))"
  shows "\<exists>ys. pool_ok s' ys \<and> h \<notin> set ys \<and> h < nalloc s' \<and> page (heap s' h) \<noteq> None
     \<and> \<not> closed s' \<and> (case ch s' of None \<Rightarrow> True | Some c \<Rightarrow> ch_len c < ch_cap c)
     \<and> active s' - int (length ys) = active s - int (length xs) + 1
     \<and> MaxIdle s' = MaxIdle s \<and> MaxActive s' = MaxActive s \<and> Wait s' = Wait s
     \<and> tokens s' = tokens s - (if Wait s \<and> 0 < MaxActive s then 1 else 0)
     \<and> (ch s' = None) = (\<not> (Wait s \<and> 0 < MaxActive s))
     \<and> waitCount s' = waitCount s \<and> waitDuration s' = waitDuration s
     \<and> locked_io s' = locked_io s \<and> seen_within (int (length xs)) s s'
     \<and> length ys \<le> length xs
     \<and> (if closes s' = closes s \<and> h \<in> set xs then xs = h # ys \<and> active s' = active s
         else True)"
proof -
  note f = pool_ok_fields [OF ok]
  obtain s1 waited where w: "waitVacantConn e s = Inr (s1, Inr waited)"
  proof (cases "waitVacantConn e s")
    case (Inl x)
    with run GetWithCtx_wait_fault [OF Inl] show ?thesis by simp
  next
    case (Inr p)
    obtain s1 r where p: "p = (s1, r)" by (cases p)
    show ?thesis
    proof (cases r)
      case (Inl err)
      with Inr p run GetWithCtx_wait_error [of e s s1 err] show ?thesis by simp
    next
      case r: (Inr waited)
      with Inr p that show ?thesis by simp
    qed
  qed
  note wf = waitVacantConn_fields [OF w]
  note wi = wait_Inr [OF f(3) op w]
  let ?sw = "s1\<lparr>waitCount := waitCount s + (if 0 < waited then 1 else 0),
                 waitDuration := waitDuration s + (if 0 < waited then waited else 0)\<rparr>"
  from GetWithCtx_run [OF f(1,2) w] obtain s5 rm cl r k where
    g: "GetWithCtx e s = (case r of Some pc \<Rightarrow> Some (Inr (s5, Inr pc)) | None \<Rightarrow> Some (dial e s5))"
    and rm: "rm = pruned e s1 xs"
    and fu: "first_usable e (MaxConnLifetime s) (heap s) k (take (length xs - length rm) xs)
         = (cl, r, ticks s5)"
    and idl5: "is_idle (idle s5) (heap s5)
         (drop (length cl + (if r = None then 0 else 1)) (take (length xs - length rm) xs))"
    and mu5: "mu s5 = (r = None)"
    and cl5: "closes s5 = closes s @ rm @ cl"
    and ac5: "active s5 = active s - int (length rm) - int (length cl)"
    and sw5: "seen_within (int (length xs)) s s5"
    and k5: "keeps ?sw s5"
    by blast
  let ?xs' = "take (length xs - length rm) xs"
  note kf = keeps_fields [OF k5]
  note sp = first_usable_split [OF fu]
  have ck5: "chan_ok s5"
  proof -
    have "chan_ok ?sw = chan_ok s1" by (rule chan_ok_cong) simp_all
    with wi(1) have "chan_ok ?sw" by simp
    then show ?thesis using k5 by (rule chan_ok_keeps)
  qed
  have sd5: "same_data (heap s) (heap s5)" using kf(13) wf by simp
  have dx': "distinct ?xs'" using f(6) by simp
  have cl_len: "length cl \<le> length ?xs'"
    using sp by (metis length_take min.cobounded1 nat_le_linear take_all)
  have rml: "length rm \<le> length xs"
    using stale_length [of "clock e" "IdleTimeout s1" "heap s1" "ticks s1" "rev xs"]
    by (simp add: rm pruned_def)
  show ?thesis
  proof (cases r)
    case (Some pc)
    with g run have s': "s' = s5" and h: "h = pc" by simp_all
    let ?ys = "drop (Suc (length cl)) ?xs'"
    from sp Some have lt: "length cl < length ?xs'" and pcx: "pc = ?xs' ! length cl" by simp_all
    have hin: "h \<in> set ?xs'"
    proof -
      have "?xs' ! length cl \<in> set ?xs'" by (rule nth_mem [OF lt])
      then show ?thesis unfolding h pcx .
    qed
    then have hxs: "h \<in> set xs" by (meson in_set_takeD)
    have hnot: "h \<notin> set ?ys" using nth_notin_drop [OF dx' lt] pcx h by simp
    have sub: "set ?ys \<subseteq> set xs" by (meson in_set_dropD in_set_takeD subsetI)
    have all: "\<forall>a \<in> set xs. a < nalloc s \<and> page (heap s a) \<noteq> None"
      using f(4) by (simp add: list_all_iff)
    have la: "list_all (\<lambda>a. a < nalloc s5 \<and> page (heap s5 a) \<noteq> None) ?ys"
      using all sub kf(12) wf by (auto simp: list_all_iff same_data_page [OF sd5])
    have ok5: "pool_ok s5 ?ys"
      using idl5 mu5 Some ck5 la by (simp add: pool_ok_def)
    have acc: "active s5 - int (length ?ys) = active s - int (length xs) + 1"
    proof -
      have "length ?ys + Suc (length cl) = length ?xs'" using lt by simp
      then have a: "int (length ?ys) + 1 + int (length cl) = int (length ?xs')"
        by (metis (no_types, lifting) add.assoc add.commute of_nat_Suc of_nat_add)
      have "length ?xs' + length rm = length xs" using rml by simp
      then have b: "int (length ?xs') + int (length rm) = int (length xs)"
        by (metis of_nat_add)
      from a b ac5 show ?thesis by linarith
    qed
    have same: "xs = h # ?ys \<and> active s5 = active s" if "closes s5 = closes s"
    proof -
      from that cl5 have e: "rm = []" "cl = []" by simp_all
      with lt pcx h have "xs \<noteq> []" "h = xs ! 0" by auto
      then have "xs = h # drop (Suc 0) xs" by (metis Cons_nth_drop_Suc drop0 length_greater_0_conv)
      with e ac5 show ?thesis by simp
    qed
    have len: "length ?ys \<le> length xs" by simp
    show ?thesis
      apply (rule exI [where x = ?ys])
      using ok5 hnot hin hxs all kf wf wi acc sw5 same op len
      by (auto simp: s' tokens_def same_data_page [OF sd5])
  next
    case None
    with g run have d: "dial e s5 = Inr (s', Inr h)" by simp
    from None mu5 have m5: "mu s5" by simp
    from sp None have clx: "cl = ?xs'" by simp
    with idl5 None have idl0: "is_idle (idle s5) (heap s5) []" by simp
    have all: "\<forall>a \<in> set xs. a < nalloc s" using f(4) by (simp add: list_all_iff)
    from dial_cases [OF m5 d] obtain pg where
      s': "s' = s5\<lparr>active := active s5 + 1, mu := False,
            seen := seen s5 @ [(active s5 + 1, count (idle s5))], ticks := Suc (ticks s5),
            heap := (heap s5)(nalloc s5 := \<lparr>page = Some pg, t_put = 0, created = clock e (ticks s5),
                                         next_pc = None, prev_pc = None\<rparr>),
            nalloc := Suc (nalloc s5)\<rparr>" and h: "h = nalloc s5"
      by auto
    have "chan_ok s' = chan_ok s5" by (rule chan_ok_cong) (simp_all add: s')
    with ck5 have ck': "chan_ok s'" by simp
    have "idle s' = idle s5" "mu s' = False" by (simp_all add: s')
    with idl0 ck' have ok': "pool_ok s' []"
      by (simp add: pool_ok_def is_idle_def)
    have c0: "count (idle s5) = 0" using idl0 by (simp add: is_idle_def)
    have sw': "seen_within (int (length xs)) s s'"
    proof -
      have "seen_within (int (length xs)) s5 s'"
        by (rule seen_within_app [where new = "[(active s5 + 1, count (idle s5))]"])
           (simp_all add: s' c0)
      from seen_within_trans [OF sw5 this] show ?thesis by simp
    qed
    have hn: "h \<notin> set xs" using all h kf(12) wf by auto
    have acc: "active s' - int (length ([]::nat list)) = active s - int (length xs) + 1"
      using ac5 clx rml by (simp add: s')
    show ?thesis
      apply (rule exI [where x = "[]"])
      using ok' hn kf wf wi acc sw' op
      by (auto simp: s' h tokens_def)
  qed
qed

section \<open>Properties\<close>

subsection \<open>Get\<close>

text \<open>
  C10. \<open>Get\<close> discards the error of \<open>GetWithCtx\<close>: whenever \<open>GetWithCtx\<close>, called as
  \<open>Get\<close> calls it, returns an error (the closed pool, the exhausted pool, a failed
  creation), \<open>Get\<close> returns the nil handle in the same state, and its result has no
  place for the error.
\<close>

theorem Get_discards_error:
  assumes "GetWithCtx (e\<lparr>ctx_done_select := False, ctx_done_recheck := False\<rparr>) s
             = Some (Inr (s1, Inl err))"
  shows "Get e s = Some (Inr (s1, None))"
  using assms by (simp add: Get_def)

theorem Get_discards_error_witness:
  "GetWithCtx (sample_env\<lparr>ctx_done_select := False, ctx_done_recheck := False\<rparr>) shut
     = Some (Inr (shut\<lparr>seen := [(0, 0)]\<rparr>, Inl ErrGetOnClosedPool))
   \<and> Get sample_env shut = Some (Inr (shut\<lparr>seen := [(0, 0)]\<rparr>, None))"
proof -
  have run: "GetWithCtx (sample_env\<lparr>ctx_done_select := False, ctx_done_recheck := False\<rparr>) shut
     = Some (Inr (shut\<lparr>seen := [(0, 0)]\<rparr>, Inl ErrGetOnClosedPool))"
    by (simp add: GetWithCtx_def waitVacantConn_def shut_def fresh_def nonblocking_config_def
        config_def lock_def unlock_def prune_stale_def prune.simps reuse.simps dial_def
        and_then_def sample_env_def)
  from run Get_discards_error [OF run] show ?thesis by simp
qed

subsection \<open>Pruning\<close>

text \<open>
  C7. The pruning loop of \<open>GetWithCtx\<close> is a total function. In every state, a run that
  returns has made between 0 and n rounds, n being the idle count read at its entry,
  and each round closed one page and took one off \<open>active\<close>. On a well-formed idle list
  it returns, and what it closes is the run of back-most entries, from the back, whose
  return time plus \<open>IdleTimeout\<close> is before the clock (none when \<open>IdleTimeout\<close> is not
  positive); the entries before them stay idle.
\<close>

theorem prune_at_most_count:
  "(\<forall>s' i. prune_stale e s = Inr (s', i) \<longrightarrow>
      0 \<le> i \<and> i \<le> max 0 (count (idle s)) \<and> active s' = active s - i
      \<and> length (closes s') = length (closes s) + nat i)
   \<and> (is_idle (idle s) (heap s) xs \<and> mu s \<longrightarrow>
        (\<exists>s'. prune_stale e s = Inr (s', int (length (pruned e s xs)))
           \<and> length (pruned e s xs) \<le> length xs
           \<and> rev (pruned e s xs) = drop (length xs - length (pruned e s xs)) xs
           \<and> closes s' = closes s @ pruned e s xs
           \<and> active s' = active s - int (length (pruned e s xs))
           \<and> is_idle (idle s') (heap s') (take (length xs - length (pruned e s xs)) xs)
           \<and> mu s' \<and> locked_io s' = locked_io s))"
proof (rule conjI)
  show "\<forall>s' i. prune_stale e s = Inr (s', i) \<longrightarrow>
      0 \<le> i \<and> i \<le> max 0 (count (idle s)) \<and> active s' = active s - i
      \<and> length (closes s') = length (closes s) + nat i"
  proof (intro allI impI)
  fix s' i
  assume run: "prune_stale e s = Inr (s', i)"
  show "0 \<le> i \<and> i \<le> max 0 (count (idle s)) \<and> active s' = active s - i
      \<and> length (closes s') = length (closes s) + nat i"
  proof (cases "0 < IdleTimeout s")
    case True
    with run have "prune e 0 (count (idle s)) s = Inr (s', i)" by (simp add: prune_stale_def)
    from prune_counts [OF this] show ?thesis by simp
  next
    case False
    with run show ?thesis by (simp add: prune_stale_def)
  qed
  qed
next
  show "is_idle (idle s) (heap s) xs \<and> mu s \<longrightarrow>
        (\<exists>s'. prune_stale e s = Inr (s', int (length (pruned e s xs)))
           \<and> length (pruned e s xs) \<le> length xs
           \<and> rev (pruned e s xs) = drop (length xs - length (pruned e s xs)) xs
           \<and> closes s' = closes s @ pruned e s xs
           \<and> active s' = active s - int (length (pruned e s xs))
           \<and> is_idle (idle s') (heap s') (take (length xs - length (pruned e s xs)) xs)
           \<and> mu s' \<and> locked_io s' = locked_io s)"
  proof
  assume a: "is_idle (idle s) (heap s) xs \<and> mu s"
  define rm where "rm = pruned e s xs"
  have len: "length rm \<le> length xs"
    using stale_length [of "clock e" "IdleTimeout s" "heap s" "ticks s" "rev xs"]
    by (simp add: rm_def pruned_def)
  have "rm = take (length rm) (rev xs)"
    using stale_prefix [of "clock e" "IdleTimeout s" "heap s" "ticks s" "rev xs"]
    by (simp add: rm_def pruned_def)
  then have "rev rm = rev (take (length rm) (rev xs))" by simp
  also have "\<dots> = drop (length xs - length rm) xs" by (simp add: rev_take)
  finally have suffix: "rev rm = drop (length xs - length rm) xs" .
  from a prune_stale_run [of s xs rm e] obtain s' where
    "prune_stale e s = Inr (s', int (length rm))"
    "is_idle (idle s') (heap s') (take (length xs - length rm) xs)" "mu s'" "keeps s s'"
    "closes s' = closes s @ rm" "active s' = active s - int (length rm)"
    by (auto simp: rm_def)
  with len suffix keeps_fields(14) [of s s']
  show "\<exists>s'. prune_stale e s = Inr (s', int (length (pruned e s xs)))
           \<and> length (pruned e s xs) \<le> length xs
           \<and> rev (pruned e s xs) = drop (length xs - length (pruned e s xs)) xs
           \<and> closes s' = closes s @ pruned e s xs
           \<and> active s' = active s - int (length (pruned e s xs))
           \<and> is_idle (idle s') (heap s') (take (length xs - length (pruned e s xs)) xs)
           \<and> mu s' \<and> locked_io s' = locked_io s"
    unfolding rm_def by blast
  qed
qed

theorem prune_at_most_count_witness:
  "is_idle (idle (warm\<lparr>mu := True\<rparr>)) (heap (warm\<lparr>mu := True\<rparr>)) [2, 1, 0]
   \<and> mu (warm\<lparr>mu := True\<rparr>)
   \<and> (\<exists>s'. prune_stale late_env (warm\<lparr>mu := True\<rparr>) = Inr (s', 1)
          \<and> closes s' = [0] \<and> active s' = 2
          \<and> is_idle (idle s') (heap s') [2, 1])"
proof -
  let ?s = "warm\<lparr>mu := True\<rparr>"
  have idl: "is_idle (idle ?s) (heap ?s) [2, 1, 0]" by code_simp
  have pr: "pruned late_env ?s [2, 1, 0] = [0]" by code_simp
  have ac: "active ?s = 3" "closes ?s = []" by code_simp+
  from prune_at_most_count [of late_env ?s "[2, 1, 0]"] idl
  obtain s' where "prune_stale late_env ?s = Inr (s', int (length (pruned late_env ?s [2, 1, 0])))"
    "closes s' = closes ?s @ pruned late_env ?s [2, 1, 0]"
    "active s' = active ?s - int (length (pruned late_env ?s [2, 1, 0]))"
    "is_idle (idle s') (heap s')
       (take (length [2, 1, 0::nat] - length (pruned late_env ?s [2, 1, 0])) [2, 1, 0])"
    by auto
  then have "prune_stale late_env ?s = Inr (s', 1) \<and> closes s' = [0] \<and> active s' = 2
          \<and> is_idle (idle s') (heap s') [2, 1]"
    unfolding pr ac by simp
  with idl show ?thesis by auto
qed

subsection \<open>Reuse\<close>

text \<open>
  C6. On a well-formed idle list the reuse loop of \<open>GetWithCtx\<close> returns, and it does
  what the specification words: scanning from the front, it hands out the first entry
  whose probe passes and whose age is below \<open>MaxConnLifetime\<close> (or no lifetime is set),
  after closing every entry before it and taking each off \<open>active\<close>; the front entry
  itself is handed out if and only if it passes both tests; with no such entry it
  closes them all and hands out nothing. The entry handed out passed the probe and,
  when a lifetime is set, was younger than it at the clock reading taken for it.
\<close>

theorem reuse_hands_out_first_usable:
  assumes "is_idle (idle s) (heap s) xs" and "mu s"
    and "first_usable e (MaxConnLifetime s) (heap s) (ticks s) xs = (cl, r, k)"
  shows "\<exists>s'. reuse e s = Some (Inr (s', r))
      \<and> cl = take (length cl) xs
      \<and> closes s' = closes s @ cl \<and> active s' = active s - int (length cl)
      \<and> is_idle (idle s') (heap s') (drop (length cl + (if r = None then 0 else 1)) xs)
      \<and> locked_io s' = locked_io s
      \<and> (case xs of
            [] \<Rightarrow> r = None
          | x # ys \<Rightarrow>
              (r = Some x) =
                (TestOnBorrow e (page (heap s x))
                 \<and> (MaxConnLifetime s = 0
                      \<or> clock e (ticks s) - created (heap s x) < MaxConnLifetime s)))
      \<and> (case r of
            None \<Rightarrow> cl = xs
          | Some pc \<Rightarrow>
              pc = xs ! length cl \<and> TestOnBorrow e (page (heap s pc))
              \<and> (MaxConnLifetime s = 0
                   \<or> clock e (ticks s' - 1) - created (heap s pc) < MaxConnLifetime s))"
proof -
  from reuse_run [OF assms] obtain s' where
    run: "reuse e s = Some (Inr (s', r))" and
    post: "is_idle (idle s') (heap s') (drop (length cl + (if r = None then 0 else 1)) xs)"
      "keeps s s'" "closes s' = closes s @ cl" "active s' = active s - int (length cl)"
      "ticks s' = k"
    by blast
  from first_usable_split [OF assms(3)] have
    pre: "cl = take (length cl) xs" and
    res: "case r of
            None \<Rightarrow> cl = xs
          | Some pc \<Rightarrow> length cl < length xs \<and> pc = xs ! length cl
             \<and> TestOnBorrow e (page (heap s pc))
             \<and> (MaxConnLifetime s = 0 \<or> (0 < k \<and> clock e (k - 1) - created (heap s pc) < MaxConnLifetime s))"
    by simp_all
  have head: "case xs of
            [] \<Rightarrow> r = None
          | x # ys \<Rightarrow>
              (r = Some x) =
                (TestOnBorrow e (page (heap s x))
                 \<and> (MaxConnLifetime s = 0
                      \<or> clock e (ticks s) - created (heap s x) < MaxConnLifetime s))"
  proof (cases xs)
    case Nil
    with assms(3) show ?thesis by simp
  next
    case (Cons x ys)
    from assms(1) Cons have nin: "x \<notin> set ys" by (simp add: is_idle_def)
    have later: "r \<noteq> Some x" if "first_usable e (MaxConnLifetime s) (heap s) j ys = (cl', r, k)" for j cl'
    proof
      assume "r = Some x"
      with first_usable_split [OF that] have "length cl' < length ys" "x = ys ! length cl'"
        by simp_all
      with nin show False by (metis nth_mem)
    qed
    from assms(3) Cons later show ?thesis
      by (auto split: if_splits prod.splits)
  qed
  from res post(5) have res': "case r of
            None \<Rightarrow> cl = xs
          | Some pc \<Rightarrow>
              pc = xs ! length cl \<and> TestOnBorrow e (page (heap s pc))
              \<and> (MaxConnLifetime s = 0
                   \<or> clock e (ticks s' - 1) - created (heap s pc) < MaxConnLifetime s)"
    by (auto split: option.splits)
  from run pre post(1,3,4) keeps_fields(14) [OF post(2)] head res' show ?thesis
    by blast
qed

theorem reuse_hands_out_first_usable_witness:
  "is_idle (idle (warm\<lparr>mu := True\<rparr>)) (heap (warm\<lparr>mu := True\<rparr>)) [2, 1, 0]
   \<and> mu (warm\<lparr>mu := True\<rparr>)
   \<and> first_usable picky_env (MaxConnLifetime (warm\<lparr>mu := True\<rparr>))
         (heap (warm\<lparr>mu := True\<rparr>)) (ticks (warm\<lparr>mu := True\<rparr>)) [2, 1, 0] = ([2], Some 1, 7)
   \<and> (\<exists>s'. reuse picky_env (warm\<lparr>mu := True\<rparr>) = Some (Inr (s', Some 1))
          \<and> closes s' = [2] \<and> active s' = 2
          \<and> is_idle (idle s') (heap s') [0])"
proof -
  let ?s = "warm\<lparr>mu := True\<rparr>"
  have idl: "is_idle (idle ?s) (heap ?s) [2, 1, 0]" by code_simp
  have m: "mu ?s" by simp
  have fu: "first_usable picky_env (MaxConnLifetime ?s) (heap ?s) (ticks ?s) [2, 1, 0]
              = ([2], Some 1, 7)"
    by code_simp
  have ac: "active ?s = 3" "closes ?s = []" by code_simp+
  from reuse_hands_out_first_usable [OF idl m fu]
  obtain s' where "reuse picky_env ?s = Some (Inr (s', Some 1))"
    "closes s' = closes ?s @ [2]" "active s' = active ?s - int (length [2::nat])"
    "is_idle (idle s') (heap s') (drop (length [2::nat] + (if Some (1::nat) = None then 0 else 1)) [2, 1, 0])"
    by blast
  then have "reuse picky_env ?s = Some (Inr (s', Some 1)) \<and> closes s' = [2] \<and> active s' = 2
          \<and> is_idle (idle s') (heap s') [0]"
    unfolding ac by simp
  with idl fu show ?thesis by auto
qed

end
